theory Spec2Isabelle
  imports Complex_Main "HOL-Library.Word"
begin

text \<open>
  A model of the storage PII scanner, \<open>runbooks/security/Security-Scan-StoragePII.py\<close>:
  the pattern registry \<open>PII_PATTERNS\<close>, the content scanner \<open>scan_text_for_pii\<close>, the
  object scanner \<open>scan_blob\<close> and the account scan \<open>scan_storage_account\<close>. The
  functions are followed statement by statement; what they call outside the file (the \<open>re\<close>
  module, \<open>bytes.decode\<close>, the division of integers to a float, \<open>await\<close>, the storage
  clients) is modelled by what it returns or raises.
\<close>

section \<open>Text and character classes\<close>

text \<open>
  The scanner works on Python \<open>str\<close> values: sequences of Unicode code points, on which
  \<open>len\<close>, indexing and slicing count code points. A text is therefore a list of code
  points. Pattern names, reason strings and exception messages are program constants and stay
  \<open>string\<close>s.
\<close>

type_synonym pystr = "nat list"

definition ord :: "char \<Rightarrow> nat" where
  "ord c = of_char c"

abbreviation str :: "string \<Rightarrow> pystr" where
  "str \<equiv> map ord"

text \<open>
  For \<open>str\<close> patterns the classes \<open>\d\<close>, \<open>\s\<close> and the word characters behind \<open>\b\<close> are
  Unicode-aware. On ASCII they are fixed below; beyond ASCII they are decided by the Unicode
  tables of the Python runtime, which are not part of this repository and are taken as a
  parameter.
\<close>

record unidata =
  uni_decimal :: "nat \<Rightarrow> bool"
  uni_space :: "nat \<Rightarrow> bool"
  uni_alnum :: "nat \<Rightarrow> bool"

definition is_digit :: "unidata \<Rightarrow> nat \<Rightarrow> bool" where
  "is_digit U x = (if x < 128 then 48 \<le> x \<and> x \<le> 57 else uni_decimal U x)"

definition is_space :: "unidata \<Rightarrow> nat \<Rightarrow> bool" where
  "is_space U x =
     (if x < 128 then (9 \<le> x \<and> x \<le> 13) \<or> (28 \<le> x \<and> x \<le> 32) else uni_space U x)"

definition is_word :: "unidata \<Rightarrow> nat \<Rightarrow> bool" where
  "is_word U x =
     (if x < 128
      then (48 \<le> x \<and> x \<le> 57) \<or> (65 \<le> x \<and> x \<le> 90) \<or> (97 \<le> x \<and> x \<le> 122) \<or> x = 95
      else uni_alnum U x)"

text \<open>The tables of a runtime that knows ASCII only; used for concrete evaluation.\<close>

definition ascii_only :: unidata where
  "ascii_only = \<lparr>uni_decimal = (\<lambda>_. False), uni_space = (\<lambda>_. False), uni_alnum = (\<lambda>_. False)\<rparr>"

datatype citem = Chr nat | Rng nat nat | Digit | Space

datatype cls = Among "citem list" | Except "citem list"

fun in_item :: "unidata \<Rightarrow> citem \<Rightarrow> nat \<Rightarrow> bool" where
  "in_item U (Chr c) x = (x = c)"
| "in_item U (Rng lo hi) x = (lo \<le> x \<and> x \<le> hi)"
| "in_item U Digit x = is_digit U x"
| "in_item U Space x = is_space U x"

fun in_cls :: "unidata \<Rightarrow> cls \<Rightarrow> nat \<Rightarrow> bool" where
  "in_cls U (Among its) x = list_ex (\<lambda>i. in_item U i x) its"
| "in_cls U (Except its) x = (\<not> list_ex (\<lambda>i. in_item U i x) its)"

section \<open>Regular expressions with backtracking\<close>

text \<open>
  \<open>re.findall\<close> is library code; the fragment of pattern syntax that \<open>PII_PATTERNS\<close> uses
  is given the semantics of the backtracking matcher: every construct returns its possible
  outcomes in the order in which the matcher tries them, and the first outcome of the whole
  pattern is the match.

  \<^item> \<open>Cls\<close>: one character of a class (\<open>\d\<close>, \<open>[-\s]\<close>, \<open>[^;]\<close>);
  \<^item> \<open>Lit\<close>: a literal string;
  \<^item> \<open>Cat\<close>: concatenation;
  \<^item> \<open>Opt\<close>: greedy \<open>?\<close>;
  \<^item> \<open>Rep lo hi c\<close>: greedy repetition \<open>{lo,hi}\<close> of a class (\<open>hi = None\<close> for \<open>+\<close> and \<open>{2,}\<close>);
  \<^item> \<open>WordB\<close>: the assertion \<open>\b\<close>;
  \<^item> \<open>Grp\<close>: a capturing group.
\<close>

datatype rx =
    Cls cls
  | Lit pystr
  | Cat rx rx
  | Opt rx
  | Rep nat "nat option" cls
  | WordB
  | Grp rx

fun seq :: "rx list \<Rightarrow> rx" where
  "seq [] = Lit []"
| "seq [r] = r"
| "seq (r # rs) = Cat r (seq rs)"

text \<open>\<open>(?:r){n}\<close> for a fixed count is \<open>n\<close> copies of \<open>r\<close> in sequence.\<close>

primrec times :: "nat \<Rightarrow> rx \<Rightarrow> rx" where
  "times 0 r = Lit []"
| "times (Suc n) r = Cat r (times n r)"

text \<open>
  A matcher state: the characters consumed since the start of the attempt (latest first), the
  text still ahead, and the text last captured by the group.
\<close>

record mstate =
  seen :: pystr
  left :: pystr
  grp :: "pystr option"

definition start :: "pystr \<Rightarrow> mstate" where
  "start t = \<lparr>seen = [], left = t, grp = None\<rparr>"

fun rep_from :: "unidata \<Rightarrow> cls \<Rightarrow> nat \<Rightarrow> nat option \<Rightarrow> pystr \<Rightarrow> pystr \<Rightarrow> (pystr \<times> pystr) list" where
  "rep_from U c lo hi sn [] = (if lo = 0 then [(sn, [])] else [])"
| "rep_from U c lo hi sn (x # xs) =
     (if hi \<noteq> Some 0 \<and> in_cls U c x
      then rep_from U c (lo - 1) (map_option (\<lambda>h. h - 1) hi) (x # sn) xs
      else [])
     @ (if lo = 0 then [(sn, x # xs)] else [])"

text \<open>
  \<open>\b\<close> holds where exactly one of the characters before and after the position is a word
  character; the ends of the text count as non-word. \<open>p\<close> is the character before the start
  of the attempt.
\<close>

definition prev_char :: "nat option \<Rightarrow> mstate \<Rightarrow> nat option" where
  "prev_char p s = (case seen s of [] \<Rightarrow> p | c # _ \<Rightarrow> Some c)"

definition word_opt :: "unidata \<Rightarrow> nat option \<Rightarrow> bool" where
  "word_opt U c = (case c of None \<Rightarrow> False | Some x \<Rightarrow> is_word U x)"

definition at_boundary :: "unidata \<Rightarrow> nat option \<Rightarrow> pystr \<Rightarrow> bool" where
  "at_boundary U p t = (word_opt U p \<noteq> word_opt U (case t of [] \<Rightarrow> None | x # _ \<Rightarrow> Some x))"

fun run :: "unidata \<Rightarrow> nat option \<Rightarrow> rx \<Rightarrow> mstate \<Rightarrow> mstate list" where
  "run U p (Cls c) s =
     (case left s of
        [] \<Rightarrow> []
      | x # xs \<Rightarrow> if in_cls U c x then [s\<lparr>seen := x # seen s, left := xs\<rparr>] else [])"
| "run U p (Lit l) s =
     (if take (length l) (left s) = l
      then [s\<lparr>seen := rev l @ seen s, left := drop (length l) (left s)\<rparr>]
      else [])"
| "run U p (Cat a b) s = concat (map (run U p b) (run U p a s))"
| "run U p (Opt a) s = run U p a s @ [s]"
| "run U p (Rep lo hi c) s =
     map (\<lambda>(sn, lf). s\<lparr>seen := sn, left := lf\<rparr>) (rep_from U c lo hi (seen s) (left s))"
| "run U p WordB s = (if at_boundary U (prev_char p s) (left s) then [s] else [])"
| "run U p (Grp a) s =
     map (\<lambda>m. m\<lparr>grp := Some (rev (take (length (seen m) - length (seen s)) (seen m)))\<rparr>)
       (run U p a s)"

primrec groups :: "rx \<Rightarrow> nat" where
  "groups (Cls c) = 0"
| "groups (Lit l) = 0"
| "groups (Cat a b) = groups a + groups b"
| "groups (Opt a) = groups a"
| "groups (Rep lo hi c) = 0"
| "groups WordB = 0"
| "groups (Grp a) = Suc (groups a)"

text \<open>
  What \<open>re.findall\<close> reports for one match: the whole match when the pattern has no group,
  the text of the group when it has one (the empty string when the group took no part in the
  match). Patterns with several groups, which yield tuples, do not occur in the registry.
\<close>

definition item :: "rx \<Rightarrow> mstate \<Rightarrow> pystr" where
  "item r m =
     (if groups r = 0 then rev (seen m)
      else (case grp m of None \<Rightarrow> [] | Some g \<Rightarrow> g))"

text \<open>
  \<open>findall_from U r p t\<close> scans \<open>t\<close> from left to right, \<open>p\<close> being the character before
  \<open>t\<close>: where the pattern matches, the item is reported and the scan goes on behind the match;
  where it does not, the scan moves on by one character. After an empty match the scan also
  moves on by one character; no pattern of the registry matches the empty string
  (\<open>registry_match_nonempty\<close> below), so for them this case does not arise.
\<close>

function findall_from :: "unidata \<Rightarrow> rx \<Rightarrow> nat option \<Rightarrow> pystr \<Rightarrow> pystr list" where
  "findall_from U r p t =
     (case run U p r (start t) of
        [] \<Rightarrow> (case t of [] \<Rightarrow> [] | x # xs \<Rightarrow> findall_from U r (Some x) xs)
      | m # _ \<Rightarrow>
          item r m #
          (case t of
             [] \<Rightarrow> []
           | x # xs \<Rightarrow>
               (case seen m of
                  [] \<Rightarrow> findall_from U r (Some x) xs
                | c # cs \<Rightarrow> findall_from U r (Some c) (drop (length (c # cs)) t))))"
  by pat_completeness auto
termination
  by (relation "measure (\<lambda>(U, r, p, t). length t)") auto

definition findall :: "unidata \<Rightarrow> rx \<Rightarrow> pystr \<Rightarrow> pystr list" where
  "findall U r t = findall_from U r None t"

section \<open>The pattern registry\<close>

text \<open>
  \<open>PII_PATTERNS\<close>, each pattern written next to its source text. The dictionary is an
  association list in insertion order, the order in which \<open>items()\<close> yields it.
\<close>

definition digit :: cls where
  "digit = Among [Digit]"

definition upper :: citem where
  "upper = Rng (ord CHR ''A'') (ord CHR ''Z'')"

definition lower :: citem where
  "lower = Rng (ord CHR ''a'') (ord CHR ''z'')"

definition num :: citem where
  "num = Rng (ord CHR ''0'') (ord CHR ''9'')"

text \<open>\<^verbatim>\<open>\b\d{3}[-\s]?\d{2}[-\s]?\d{4}\b\<close>\<close>

definition ssn_rx :: rx where
  "ssn_rx = seq [WordB, Rep 3 (Some 3) digit, Opt (Cls (Among [Chr (ord CHR ''-''), Space])),
     Rep 2 (Some 2) digit, Opt (Cls (Among [Chr (ord CHR ''-''), Space])),
     Rep 4 (Some 4) digit, WordB]"

text \<open>\<^verbatim>\<open>\b(?:\d{4}[-\s]?){3}\d{4}\b\<close>\<close>

definition credit_card_rx :: rx where
  "credit_card_rx = seq [WordB,
     times 3 (Cat (Rep 4 (Some 4) digit) (Opt (Cls (Among [Chr (ord CHR ''-''), Space])))),
     Rep 4 (Some 4) digit, WordB]"

text \<open>\<^verbatim>\<open>\b[A-Za-z0-9._%+-]+@[A-Za-z0-9.-]+\.[A-Z|a-z]{2,}\b\<close>\<close>

definition email_rx :: rx where
  "email_rx = seq [WordB,
     Rep 1 None (Among [upper, lower, num, Chr (ord CHR ''.''), Chr (ord CHR ''_''),
       Chr (ord CHR ''%''), Chr (ord CHR ''+''), Chr (ord CHR ''-'')]),
     Lit (str ''@''),
     Rep 1 None (Among [upper, lower, num, Chr (ord CHR ''.''), Chr (ord CHR ''-'')]),
     Lit (str ''.''),
     Rep 2 None (Among [upper, Chr (ord CHR ''|''), lower]), WordB]"

text \<open>\<^verbatim>\<open>\b(\+\d{1,2}\s)?\(?\d{3}\)?[\s.-]?\d{3}[\s.-]?\d{4}\b\<close>\<close>

definition phone_rx :: rx where
  "phone_rx = seq [WordB,
     Opt (Grp (seq [Lit (str ''+''), Rep 1 (Some 2) digit, Cls (Among [Space])])),
     Opt (Lit (str ''('')), Rep 3 (Some 3) digit, Opt (Lit (str '')'')),
     Opt (Cls (Among [Space, Chr (ord CHR ''.''), Chr (ord CHR ''-'')])),
     Rep 3 (Some 3) digit,
     Opt (Cls (Among [Space, Chr (ord CHR ''.''), Chr (ord CHR ''-'')])),
     Rep 4 (Some 4) digit, WordB]"

text \<open>\<^verbatim>\<open>\b[A-Z]{1,2}[0-9]{6,9}\b\<close>\<close>

definition passport_rx :: rx where
  "passport_rx = seq [WordB, Rep 1 (Some 2) (Among [upper]), Rep 6 (Some 9) (Among [num]), WordB]"

text \<open>\<^verbatim>\<open>\b[A-Z]{1}[0-9]{7}\b\<close>\<close>

definition driver_license_rx :: rx where
  "driver_license_rx =
     seq [WordB, Rep 1 (Some 1) (Among [upper]), Rep 7 (Some 7) (Among [num]), WordB]"

text \<open>\<^verbatim>\<open>\b\d{1,3}\.\d{1,3}\.\d{1,3}\.\d{1,3}\b\<close>\<close>

definition ip_address_rx :: rx where
  "ip_address_rx = seq [WordB, Rep 1 (Some 3) digit, Lit (str ''.''), Rep 1 (Some 3) digit,
     Lit (str ''.''), Rep 1 (Some 3) digit, Lit (str ''.''), Rep 1 (Some 3) digit, WordB]"

text \<open>\<^verbatim>\<open>\b[A-Z0-9]{20}\b\<close>\<close>

definition aws_access_key_rx :: rx where
  "aws_access_key_rx = seq [WordB, Rep 20 (Some 20) (Among [upper, num]), WordB]"

text \<open>\<^verbatim>\<open>DefaultEndpointsProtocol=https;AccountName=[^;]+;AccountKey=[^;]+;\<close>\<close>

definition azure_connection_string_rx :: rx where
  "azure_connection_string_rx = seq [Lit (str ''DefaultEndpointsProtocol=https;AccountName=''),
     Rep 1 None (Except [Chr (ord CHR '';'')]), Lit (str '';AccountKey=''),
     Rep 1 None (Except [Chr (ord CHR '';'')]), Lit (str '';'')]"

definition PII_PATTERNS :: "(string \<times> rx) list" where
  "PII_PATTERNS =
     [(''SSN'', ssn_rx),
      (''Credit Card'', credit_card_rx),
      (''Email'', email_rx),
      (''Phone Number'', phone_rx),
      (''Passport Number'', passport_rx),
      (''US Driver License'', driver_license_rx),
      (''IP Address'', ip_address_rx),
      (''AWS Access Key'', aws_access_key_rx),
      (''Azure Connection String'', azure_connection_string_rx)]"

section \<open>The content scanner\<close>

text \<open>
  The string operations of the redaction, with Python's conventions: \<open>'*' * n\<close> is empty for
  \<open>n \<le> 0\<close>; \<open>s[0]\<close> and \<open>s[-1]\<close> raise \<open>IndexError\<close> on the empty string; the slices
  \<open>s[0:3]\<close>, \<open>s[-3:]\<close> and \<open>s[-4:]\<close> never raise and return what is there; \<open>split\<close>
  cuts at every separator and returns at least one part.
\<close>

datatype error = IndexError | OverflowError | ZeroDivisionError

definition stars :: "int \<Rightarrow> pystr" where
  "stars n = replicate (nat n) (ord CHR ''*'')"

definition len :: "pystr \<Rightarrow> int" where
  "len s = int (length s)"

definition first_char :: "pystr \<Rightarrow> error + nat" where
  "first_char s = (case s of [] \<Rightarrow> Inl IndexError | c # _ \<Rightarrow> Inr c)"

definition last_char :: "pystr \<Rightarrow> error + nat" where
  "last_char s = (if s = [] then Inl IndexError else Inr (last s))"

definition tail_slice :: "nat \<Rightarrow> pystr \<Rightarrow> pystr" where
  "tail_slice k s = drop (length s - k) s"

function split :: "nat \<Rightarrow> pystr \<Rightarrow> pystr list" where
  "split sep s =
     (case dropWhile (\<lambda>x. x \<noteq> sep) s of
        [] \<Rightarrow> [s]
      | _ # rest \<Rightarrow> takeWhile (\<lambda>x. x \<noteq> sep) s # split sep rest)"
  by pat_completeness auto
termination
proof (relation "measure (\<lambda>(sep, s). length s)")
  show "wf (measure (\<lambda>(sep, s). length s))" by simp
next
  fix sep :: nat and s :: pystr and x rest
  assume "dropWhile (\<lambda>x. x \<noteq> sep) s = x # rest"
  moreover have "length (dropWhile (\<lambda>x. x \<noteq> sep) s) \<le> length s"
    by (rule length_dropWhile_le)
  ultimately show "((sep, rest), (sep, s)) \<in> measure (\<lambda>(sep, s). length s)"
    by simp
qed

text \<open>
  The body of the loop over \<open>matches\<close>: the redacted string to append, \<open>None\<close> when the
  \<open>Email\<close> branch appends nothing, or the exception raised.
\<close>

definition redact :: "string \<Rightarrow> pystr \<Rightarrow> error + pystr option" where
  "redact pattern_name match =
     (if pattern_name = ''Email'' then
        (case split (ord CHR ''@'') match of
           p0 # p1 # _ \<Rightarrow>
             (case first_char p0 of
                Inl e \<Rightarrow> Inl e
              | Inr a \<Rightarrow>
                  (case last_char p0 of
                     Inl e \<Rightarrow> Inl e
                   | Inr z \<Rightarrow> Inr (Some ([a] @ stars (len p0 - 2) @ [z] @ str ''@'' @ p1))))
         | _ \<Rightarrow> Inr None)
      else if pattern_name \<in> set [''SSN'', ''Credit Card'', ''Phone Number''] then
        Inr (Some (stars (len match - 4) @ tail_slice 4 match))
      else if len match > 6 then
        Inr (Some (take 3 match @ stars (len match - 6) @ tail_slice 3 match))
      else
        (case first_char match of
           Inl e \<Rightarrow> Inl e
         | Inr a \<Rightarrow>
             (case last_char match of
                Inl e \<Rightarrow> Inl e
              | Inr z \<Rightarrow> Inr (Some ([a] @ stars (len match - 2) @ [z])))))"

fun redact_all :: "string \<Rightarrow> pystr list \<Rightarrow> error + pystr list" where
  "redact_all pattern_name [] = Inr []"
| "redact_all pattern_name (match # matches) =
     (case redact pattern_name match of
        Inl e \<Rightarrow> Inl e
      | Inr r \<Rightarrow>
          (case redact_all pattern_name matches of
             Inl e \<Rightarrow> Inl e
           | Inr rs \<Rightarrow> Inr ((case r of None \<Rightarrow> [] | Some x \<Rightarrow> [x]) @ rs)))"

record finding =
  count :: nat
  samples :: "pystr list"

type_synonym findings_map = "(string \<times> finding) list"

fun dict_set :: "'k \<Rightarrow> 'v \<Rightarrow> ('k \<times> 'v) list \<Rightarrow> ('k \<times> 'v) list" where
  "dict_set k v [] = [(k, v)]"
| "dict_set k v ((k', v') # d) = (if k' = k then (k, v) # d else (k', v') # dict_set k v d)"

fun scan_patterns :: "unidata \<Rightarrow> (string \<times> rx) list \<Rightarrow> pystr \<Rightarrow> findings_map \<Rightarrow> error + findings_map" where
  "scan_patterns U [] txt fs = Inr fs"
| "scan_patterns U ((pattern_name, pattern) # rest) txt fs =
     (let matches = findall U pattern txt in
      if matches \<noteq> [] then
        (case redact_all pattern_name matches of
           Inl e \<Rightarrow> Inl e
         | Inr redacted_matches \<Rightarrow>
             scan_patterns U rest txt
               (dict_set pattern_name
                  \<lparr>count = length matches, samples = take 3 redacted_matches\<rparr> fs))
      else scan_patterns U rest txt fs)"

definition scan_text_for_pii :: "unidata \<Rightarrow> pystr \<Rightarrow> error + findings_map" where
  "scan_text_for_pii U txt = scan_patterns U PII_PATTERNS txt []"

section \<open>The object scanner\<close>

text \<open>
  \<open>content.decode('utf-8')\<close> is the strict decoder: a byte sequence that is not well-formed
  UTF-8 (a stray continuation byte, an overlong form, a surrogate, a value beyond U+10FFFF, a
  truncated sequence) raises \<open>UnicodeDecodeError\<close>, here \<open>None\<close>.
\<close>

type_synonym byte = "8 word"

definition cont :: "byte \<Rightarrow> bool" where
  "cont b = (0x80 \<le> b \<and> b \<le> 0xBF)"

fun utf8_decode :: "byte list \<Rightarrow> pystr option" where
  "utf8_decode [] = Some []"
| "utf8_decode (b # bs) =
     (if b < 0x80 then map_option ((#) (unat b)) (utf8_decode bs)
      else if 0xC2 \<le> b \<and> b \<le> 0xDF then
        (case bs of
           c1 # r \<Rightarrow>
             if cont c1
             then map_option ((#) ((unat b - 0xC0) * 64 + (unat c1 - 0x80))) (utf8_decode r)
             else None
         | _ \<Rightarrow> None)
      else if 0xE0 \<le> b \<and> b \<le> 0xEF then
        (case bs of
           c1 # c2 # r \<Rightarrow>
             if (if b = 0xE0 then 0xA0 else 0x80) \<le> c1 \<and> c1 \<le> (if b = 0xED then 0x9F else 0xBF)
                \<and> cont c2
             then map_option
                    ((#) ((unat b - 0xE0) * 4096 + (unat c1 - 0x80) * 64 + (unat c2 - 0x80)))
                    (utf8_decode r)
             else None
         | _ \<Rightarrow> None)
      else if 0xF0 \<le> b \<and> b \<le> 0xF4 then
        (case bs of
           c1 # c2 # c3 # r \<Rightarrow>
             if (if b = 0xF0 then 0x90 else 0x80) \<le> c1 \<and> c1 \<le> (if b = 0xF4 then 0x8F else 0xBF)
                \<and> cont c2 \<and> cont c3
             then map_option
                    ((#) ((unat b - 0xF0) * 262144 + (unat c1 - 0x80) * 4096
                          + (unat c2 - 0x80) * 64 + (unat c3 - 0x80)))
                    (utf8_decode r)
             else None
         | _ \<Rightarrow> None)
      else None)"

text \<open>
  \<open>scan_blob\<close> awaits what the calls on the blob client return. A call raises (with a
  message) or answers; the answer is a plain object, named by its type, or an awaitable, which
  raises or yields its result when awaited. \<open>await\<close> on a plain object raises \<open>TypeError\<close>.
  The clients of \<open>azure.storage.blob\<close>, from which \<open>scan_storage_account\<close> builds the
  client it passes on, answer plain objects (\<open>BlobProperties\<close>,
  \<open>StorageStreamDownloader\<close>, \<open>bytes\<close>); those of the asynchronous variant of the
  library answer awaitables.
\<close>

datatype 'a answer = Plain string 'a | Awaitable "string + 'a"

type_synonym 'a call_result = "string + 'a answer"

definition await_error :: "string \<Rightarrow> string" where
  "await_error ty = ''object '' @ ty @ '' can't be used in 'await' expression''"

definition await :: "'a answer \<Rightarrow> string + 'a" where
  "await a = (case a of Plain ty v \<Rightarrow> Inl (await_error ty) | Awaitable r \<Rightarrow> r)"

text \<open>
  A blob client is known by what its calls do: \<open>get_blob_properties\<close> gives properties, of
  which only \<open>size\<close> is read; \<open>download_blob\<close> gives a stream, known by what its
  \<open>readall\<close> does.
\<close>

record blob_client =
  get_blob_properties :: "int call_result"
  download_blob :: "byte list call_result call_result"

text \<open>
  \<open>properties.size / (1024 * 1024)\<close> divides two integers to a float: the double nearest
  to the quotient (ties to even), \<open>OverflowError\<close> when that is beyond the range of doubles.
  A float is kept as the rational number it is.
\<close>

function bit_length :: "int \<Rightarrow> nat" where
  "bit_length n = (if n \<le> 0 then 0 else Suc (bit_length (n div 2)))"
  by pat_completeness auto
termination
  by (relation "measure nat") auto

definition pow2 :: "int \<Rightarrow> rat" where
  "pow2 k = (if 0 \<le> k then 2 ^ nat k else 1 / 2 ^ nat (- k))"

definition round_half_even :: "rat \<Rightarrow> int" where
  "round_half_even x =
     (let f = \<lfloor>x\<rfloor>; d = x - of_int f
      in if d < 1 / 2 then f else if 1 / 2 < d then f + 1 else if even f then f else f + 1)"

text \<open>For \<open>a, b > 0\<close>, the \<open>e\<close> with \<open>2 ^ e \<le> a / b < 2 ^ (e + 1)\<close>.\<close>

definition exponent :: "int \<Rightarrow> int \<Rightarrow> int" where
  "exponent a b =
     (let e = int (bit_length a) - int (bit_length b)
      in if pow2 e * of_int b \<le> of_int a then e else e - 1)"

definition truediv :: "int \<Rightarrow> int \<Rightarrow> error + rat" where
  "truediv a b =
     (if b = 0 then Inl ZeroDivisionError
      else if a = 0 then Inr 0
      else
        let e = exponent \<bar>a\<bar> \<bar>b\<bar>;
            k = max (e - 52) (- 1074);
            m = round_half_even (of_int \<bar>a\<bar> / of_int \<bar>b\<bar> / pow2 k);
            r = of_int m * pow2 k
        in if pow2 1024 \<le> r then Inl OverflowError
           else Inr (if (a < 0) = (b < 0) then r else - r))"

text \<open>
  The dictionary that \<open>scan_blob\<close> returns has the key \<open>scanned\<close> on every path and the
  others on some paths only; an absent key is \<open>None\<close>.
\<close>

record outcome =
  scanned :: bool
  reason :: "string option"
  size_mb :: "rat option"
  findings :: "findings_map option"
  has_pii :: "bool option"

text \<open>The calls made on the way, in order.\<close>

datatype call = Get_blob_properties | Download_blob | Readall | Scan_text_for_pii pystr

definition str_of_error :: "error \<Rightarrow> string" where
  "str_of_error e =
     (case e of
        IndexError \<Rightarrow> ''string index out of range''
      | OverflowError \<Rightarrow> ''integer division result too large for a float''
      | ZeroDivisionError \<Rightarrow> ''division by zero'')"

definition error_outcome :: "string \<Rightarrow> outcome" where
  "error_outcome e =
     \<lparr>scanned = False, reason = Some (''Error: '' @ e), size_mb = None, findings = None,
      has_pii = None\<rparr>"

text \<open>
  Every exception raised inside \<open>scan_blob\<close>, but \<open>UnicodeDecodeError\<close> of the decoding,
  ends in the handler \<open>except Exception\<close>: \<open>failed e calls\<close> is the outcome it returns.
\<close>

definition failed :: "string \<Rightarrow> call list \<Rightarrow> outcome \<times> call list" where
  "failed e calls = (error_outcome e, calls)"

definition scan_blob :: "unidata \<Rightarrow> blob_client \<Rightarrow> int \<Rightarrow> outcome \<times> call list" where
  "scan_blob U client max_size_mb =
     (case get_blob_properties client of
        Inl e \<Rightarrow> failed e [Get_blob_properties]
      | Inr answered \<Rightarrow>
     (case await answered of
        Inl e \<Rightarrow> failed e [Get_blob_properties]
      | Inr blob_size \<Rightarrow>
          if blob_size > max_size_mb * 1024 * 1024 then
            (case truediv blob_size (1024 * 1024) of
               Inl e \<Rightarrow> failed (str_of_error e) [Get_blob_properties]
             | Inr mb \<Rightarrow>
                 (\<lparr>scanned = False, reason = Some ''File too large'', size_mb = Some mb,
                   findings = None, has_pii = None\<rparr>,
                  [Get_blob_properties]))
          else
     (case download_blob client of
        Inl e \<Rightarrow> failed e [Get_blob_properties, Download_blob]
      | Inr downloading \<Rightarrow>
     (case await downloading of
        Inl e \<Rightarrow> failed e [Get_blob_properties, Download_blob]
      | Inr readall \<Rightarrow>
     (case readall of
        Inl e \<Rightarrow> failed e [Get_blob_properties, Download_blob, Readall]
      | Inr reading \<Rightarrow>
     (case await reading of
        Inl e \<Rightarrow> failed e [Get_blob_properties, Download_blob, Readall]
      | Inr content \<Rightarrow>
     (case utf8_decode content of
        None \<Rightarrow>
          (case truediv blob_size (1024 * 1024) of
             Inl e \<Rightarrow> failed (str_of_error e) [Get_blob_properties, Download_blob, Readall]
           | Inr mb \<Rightarrow>
               (\<lparr>scanned = False, reason = Some ''Not a text file'', size_mb = Some mb,
                 findings = None, has_pii = None\<rparr>,
                [Get_blob_properties, Download_blob, Readall]))
      | Some text_content \<Rightarrow>
          (case scan_text_for_pii U text_content of
             Inl e \<Rightarrow>
               failed (str_of_error e)
                 [Get_blob_properties, Download_blob, Readall, Scan_text_for_pii text_content]
           | Inr pii_findings \<Rightarrow>
               (case truediv blob_size (1024 * 1024) of
                  Inl e \<Rightarrow>
                    failed (str_of_error e)
                      [Get_blob_properties, Download_blob, Readall,
                       Scan_text_for_pii text_content]
                | Inr mb \<Rightarrow>
                    (\<lparr>scanned = True, reason = None, size_mb = Some mb,
                      findings = Some pii_findings,
                      has_pii = Some (length pii_findings > 0)\<rparr>,
                     [Get_blob_properties, Download_blob, Readall,
                      Scan_text_for_pii text_content]))))))))))"

text \<open>
  The readers of the dictionary: \<open>scan_result.get("has_pii", False)\<close>,
  \<open>scan_result.get("findings", {})\<close> and \<open>scan_result.get("size_mb", 0)\<close>.
\<close>

definition get_has_pii :: "outcome \<Rightarrow> bool" where
  "get_has_pii r = (case has_pii r of None \<Rightarrow> False | Some b \<Rightarrow> b)"

definition get_findings :: "outcome \<Rightarrow> findings_map" where
  "get_findings r = (case findings r of None \<Rightarrow> [] | Some f \<Rightarrow> f)"

definition get_size_mb :: "outcome \<Rightarrow> rat" where
  "get_size_mb r = (case size_mb r of None \<Rightarrow> 0 | Some x \<Rightarrow> x)"

section \<open>The container walk and the account\<close>

text \<open>
  A listing (\<open>list_containers()\<close>, \<open>list_blobs()\<close>) yields its items in order and then
  either ends or raises. The result dictionaries are records; the key \<open>blobs_scanned\<close> of
  the account result is the field \<open>account_blobs_scanned\<close>, the key \<open>findings\<close> of a
  container result is \<open>blob_findings\<close>, and the keys \<open>blob_name\<close> and \<open>size_mb\<close> of a
  finding are \<open>found_in\<close> and \<open>found_size_mb\<close>.
\<close>

record 'a listing =
  items :: "'a list"
  raises :: "string option"

record blob =
  blob_name :: string
  client :: blob_client

record container =
  container_name :: string
  list_blobs :: "blob listing"

record blob_finding =
  found_in :: string
  found_size_mb :: rat
  pii_types :: "string list"
  details :: findings_map

record container_results =
  of_container :: string
  blobs_scanned :: int
  blobs_with_pii :: int
  blob_findings :: "blob_finding list"

record results =
  storage_account :: string
  resource_group :: string
  scan_time :: string
  containers_scanned :: int
  account_blobs_scanned :: int
  pii_found_count :: int
  pii_findings :: "container_results list"

text \<open>
  The state of the loop over the blobs of one container: the two dictionaries being updated,
  the counter, and the blobs handed to \<open>scan_blob\<close> so far (kept for the statements below;
  the code does not record them).
\<close>

record walk =
  container_results :: container_results
  results :: results
  scan_count :: int
  examined :: "blob list"

fun scan_blobs :: "unidata \<Rightarrow> int \<Rightarrow> int \<Rightarrow> blob list \<Rightarrow> string option \<Rightarrow> walk \<Rightarrow> string option \<times> walk" where
  "scan_blobs U max_size_mb scan_depth [] exc w = (exc, w)"
| "scan_blobs U max_size_mb scan_depth (b # bs) exc w =
     (if scan_count w \<ge> scan_depth then (None, w)
      else
        let scan_result = fst (scan_blob U (client b) max_size_mb);
            w1 =
              (if scanned scan_result then
                 let w2 = w\<lparr>container_results :=
                              (container_results w)\<lparr>blobs_scanned :=
                                 blobs_scanned (container_results w) + 1\<rparr>,
                            results :=
                              (results w)\<lparr>account_blobs_scanned :=
                                 account_blobs_scanned (results w) + 1\<rparr>\<rparr>
                 in if get_has_pii scan_result then
                      w2\<lparr>container_results :=
                           (container_results w2)\<lparr>blobs_with_pii :=
                              blobs_with_pii (container_results w2) + 1,
                            blob_findings := blob_findings (container_results w2) @
                              [\<lparr>found_in = blob_name b, found_size_mb = get_size_mb scan_result,
                                pii_types = map fst (get_findings scan_result),
                                details = get_findings scan_result\<rparr>]\<rparr>,
                         results :=
                           (results w2)\<lparr>pii_found_count := pii_found_count (results w2) + 1\<rparr>\<rparr>
                    else w2
               else w)
        in scan_blobs U max_size_mb scan_depth bs exc
             (w1\<lparr>scan_count := scan_count w1 + 1, examined := examined w1 @ [b]\<rparr>))"

text \<open>
  One entry per container whose walk was begun: the container, the blobs examined in it and
  the container result as the walk left it (whether or not it was appended to
  \<open>pii_findings\<close>).
\<close>

record visit =
  visited :: container
  looked_at :: "blob list"
  produced :: container_results

fun scan_containers :: "unidata \<Rightarrow> int \<Rightarrow> int \<Rightarrow> container list \<Rightarrow> string option \<Rightarrow> results \<Rightarrow> visit list \<Rightarrow> string option \<times> results \<times> visit list" where
  "scan_containers U max_size_mb scan_depth [] exc res vs = (exc, res, vs)"
| "scan_containers U max_size_mb scan_depth (c # cs) exc res vs =
     (case scan_blobs U max_size_mb scan_depth (items (list_blobs c)) (raises (list_blobs c))
             \<lparr>container_results =
                \<lparr>of_container = container_name c, blobs_scanned = 0, blobs_with_pii = 0,
                 blob_findings = []\<rparr>,
              results = res, scan_count = 0, examined = []\<rparr> of
        (Some e, w) \<Rightarrow>
          (Some e, results w,
           vs @ [\<lparr>visited = c, looked_at = examined w, produced = container_results w\<rparr>])
      | (None, w) \<Rightarrow>
          let res1 = (results w)\<lparr>containers_scanned := containers_scanned (results w) + 1\<rparr>;
              res2 =
                (if blobs_with_pii (container_results w) > 0
                 then res1\<lparr>pii_findings := pii_findings res1 @ [container_results w]\<rparr>
                 else res1)
          in scan_containers U max_size_mb scan_depth cs exc res2
               (vs @ [\<lparr>visited = c, looked_at = examined w, produced = container_results w\<rparr>]))"

text \<open>
  \<open>scan_storage_account\<close>: \<open>now\<close> is the clock reading, \<open>list_containers\<close> what the blob
  service of the account lists. An exception of a listing ends the scan and is printed; the
  results accumulated so far are returned either way. The second component is the record of
  the visits. Building the service, container and blob clients does no input or output and is
  taken to succeed; \<open>account_key\<close> only goes into the service client. A listing holds each
  blob with its client as the client answers; the statements about the scan hold for clients
  of either kind.
\<close>

definition scan_storage_account :: "unidata \<Rightarrow> string \<Rightarrow> container listing \<Rightarrow> string \<Rightarrow> string \<Rightarrow> string \<Rightarrow> int \<Rightarrow> int \<Rightarrow> results \<times> visit list" where
  "scan_storage_account U now list_containers account_name account_key resource_group'
       max_size_mb scan_depth =
     (case scan_containers U max_size_mb scan_depth (items list_containers)
             (raises list_containers)
             \<lparr>storage_account = account_name, resource_group = resource_group', scan_time = now,
              containers_scanned = 0, account_blobs_scanned = 0, pii_found_count = 0,
              pii_findings = []\<rparr> [] of
        (exc, res, vs) \<Rightarrow> (res, vs))"

section \<open>Example blobs and accounts\<close>

text \<open>Concrete inputs on which the statements below are exercised.\<close>

definition failing_client :: blob_client where
  "failing_client = \<lparr>get_blob_properties = Inl ''gone'', download_blob = Inl ''gone''\<rparr>"

text \<open>
  \<open>awaitable_client\<close> answers every call with an awaitable that yields, \<open>plain_client\<close>
  with the plain objects of \<open>azure.storage.blob\<close>.
\<close>

definition awaitable_client :: "int \<Rightarrow> byte list \<Rightarrow> blob_client" where
  "awaitable_client blob_size content =
     \<lparr>get_blob_properties = Inr (Awaitable (Inr blob_size)),
      download_blob = Inr (Awaitable (Inr (Inr (Awaitable (Inr content)))))\<rparr>"

definition plain_client :: "int \<Rightarrow> byte list \<Rightarrow> blob_client" where
  "plain_client blob_size content =
     \<lparr>get_blob_properties = Inr (Plain ''BlobProperties'' blob_size),
      download_blob =
        Inr (Plain ''StorageStreamDownloader'' (Inr (Plain ''bytes'' content)))\<rparr>"

definition large_client :: blob_client where
  "large_client = awaitable_client (15 * 1024 * 1024) []"

definition binary_client :: blob_client where
  "binary_client = awaitable_client 2 [0xFF, 0xFE]"

definition ssn_client :: blob_client where
  "ssn_client = awaitable_client 11 (map of_char ''123-45-6789'')"

definition plain_large_client :: blob_client where
  "plain_large_client = plain_client (15 * 1024 * 1024) []"

definition plain_binary_client :: blob_client where
  "plain_binary_client = plain_client 2 [0xFF, 0xFE]"

definition crowded_container :: container where
  "crowded_container =
     \<lparr>container_name = ''crowded'',
      list_blobs =
        \<lparr>items = concat (replicate 50
           [\<lparr>blob_name = ''a'', client = failing_client\<rparr>,
            \<lparr>blob_name = ''b'', client = large_client\<rparr>,
            \<lparr>blob_name = ''c'', client = binary_client\<rparr>]),
         raises = None\<rparr>\<rparr>"

definition quiet_container :: container where
  "quiet_container =
     \<lparr>container_name = ''quiet'',
      list_blobs = \<lparr>items = [\<lparr>blob_name = ''c'', client = binary_client\<rparr>], raises = None\<rparr>\<rparr>"

definition ssn_container :: container where
  "ssn_container =
     \<lparr>container_name = ''hr'',
      list_blobs =
        \<lparr>items = [\<lparr>blob_name = ''s'', client = ssn_client\<rparr>,
                  \<lparr>blob_name = ''a'', client = failing_client\<rparr>],
         raises = None\<rparr>\<rparr>"

definition crowded_scan :: "results \<times> visit list" where
  "crowded_scan =
     scan_storage_account ascii_only ''t'' \<lparr>items = [crowded_container], raises = None\<rparr>
       ''acct'' ''key'' ''rg'' 10 100"

definition mixed_scan :: "results \<times> visit list" where
  "mixed_scan =
     scan_storage_account ascii_only ''t''
       \<lparr>items = [quiet_container, ssn_container], raises = None\<rparr> ''acct'' ''key'' ''rg'' 10 100"

definition idle_visit :: visit where
  "idle_visit =
     \<lparr>visited = quiet_container, looked_at = [],
      produced = \<lparr>of_container = ''quiet'', blobs_scanned = 0, blobs_with_pii = 0,
                   blob_findings = []\<rparr>\<rparr>"

definition negative_depth_scan :: "results \<times> visit list" where
  "negative_depth_scan =
     scan_storage_account ascii_only ''t'' \<lparr>items = [quiet_container], raises = None\<rparr>
       ''acct'' ''key'' ''rg'' 10 (- 1)"

section \<open>Notions used in the proofs\<close>

text \<open>
  The strings a pattern can consume, read off its structure (\<open>\b\<close> consumes nothing, a group
  is transparent). Every outcome of \<open>run\<close> consumes such a string.
\<close>

primrec lang :: "unidata \<Rightarrow> rx \<Rightarrow> pystr set" where
  "lang U (Cls c) = {[x] | x. in_cls U c x}"
| "lang U (Lit l) = {l}"
| "lang U (Cat a b) = {u @ v | u v. u \<in> lang U a \<and> v \<in> lang U b}"
| "lang U (Opt a) = insert [] (lang U a)"
| "lang U (Rep lo hi c) =
     {w. lo \<le> length w \<and> (case hi of None \<Rightarrow> True | Some h \<Rightarrow> length w \<le> h)
         \<and> (\<forall>x\<in>set w. in_cls U c x)}"
| "lang U WordB = {[]}"
| "lang U (Grp a) = lang U a"

text \<open>The least number of characters a pattern consumes.\<close>

primrec minlen :: "rx \<Rightarrow> nat" where
  "minlen (Cls c) = 1"
| "minlen (Lit l) = length l"
| "minlen (Cat a b) = minlen a + minlen b"
| "minlen (Opt a) = 0"
| "minlen (Rep lo hi c) = lo"
| "minlen WordB = 0"
| "minlen (Grp a) = minlen a"

text \<open>\<open>avoids U k r\<close>: no part of \<open>r\<close> can consume the character \<open>k\<close>.\<close>

primrec avoids :: "unidata \<Rightarrow> nat \<Rightarrow> rx \<Rightarrow> bool" where
  "avoids U k (Cls c) = (\<not> in_cls U c k)"
| "avoids U k (Lit l) = (k \<notin> set l)"
| "avoids U k (Cat a b) = (avoids U k a \<and> avoids U k b)"
| "avoids U k (Opt a) = avoids U k a"
| "avoids U k (Rep lo hi c) = (\<not> in_cls U c k)"
| "avoids U k WordB = True"
| "avoids U k (Grp a) = avoids U k a"

text \<open>
  \<open>in_order ms t\<close>: the strings \<open>ms\<close> occur in \<open>t\<close> one after the other, from left to right
  and without overlap.
\<close>

fun in_order :: "pystr list \<Rightarrow> pystr \<Rightarrow> bool" where
  "in_order [] t = True"
| "in_order (m # ms) t = (\<exists>pre post. t = pre @ m @ post \<and> in_order ms post)"

text \<open>The state in which the walk of a container begins, and the initial account result.\<close>

definition walk0 :: "container \<Rightarrow> results \<Rightarrow> walk" where
  "walk0 c res =
     \<lparr>container_results =
        \<lparr>of_container = container_name c, blobs_scanned = 0, blobs_with_pii = 0,
         blob_findings = []\<rparr>,
      results = res, scan_count = 0, examined = []\<rparr>"

definition account0 :: "string \<Rightarrow> string \<Rightarrow> string \<Rightarrow> results" where
  "account0 account_name rg now =
     \<lparr>storage_account = account_name, resource_group = rg, scan_time = now,
      containers_scanned = 0, account_blobs_scanned = 0, pii_found_count = 0,
      pii_findings = []\<rparr>"

section \<open>Properties of the matcher\<close>

text \<open>
  Whatever \<open>run\<close> returns has consumed a string of the pattern's language from the front of
  the text ahead.
\<close>

lemma rep_from_sound:
  "(sn', lf') \<in> set (rep_from U c lo hi sn t) \<Longrightarrow>
     \<exists>w. sn' = rev w @ sn \<and> t = w @ lf' \<and> lo \<le> length w
         \<and> (case hi of None \<Rightarrow> True | Some h \<Rightarrow> length w \<le> h)
         \<and> (\<forall>x\<in>set w. in_cls U c x)"
proof (induction t arbitrary: lo hi sn)
  case Nil
  then show ?case by (auto split: if_splits option.splits)
next
  case (Cons x xs)
  from Cons.prems consider
      (more) "hi \<noteq> Some 0" "in_cls U c x"
        "(sn', lf') \<in> set (rep_from U c (lo - 1) (map_option (\<lambda>h. h - 1) hi) (x # sn) xs)"
    | (stop) "lo = 0" "sn' = sn" "lf' = x # xs"
    by (auto split: if_splits)
  then show ?case
  proof cases
    case more
    from Cons.IH [OF more(3)] obtain w where
      w: "sn' = rev w @ x # sn" "xs = w @ lf'" "lo - 1 \<le> length w"
         "case map_option (\<lambda>h. h - 1) hi of None \<Rightarrow> True | Some h \<Rightarrow> length w \<le> h"
         "\<forall>y\<in>set w. in_cls U c y"
      by blast
    have "case hi of None \<Rightarrow> True | Some h \<Rightarrow> length (x # w) \<le> h"
      using w(4) more(1) by (cases hi) auto
    with w more(2) show ?thesis
      by (intro exI [of _ "x # w"]) auto
  next
    case stop
    then show ?thesis by (intro exI [of _ "[]"]) (auto split: option.splits)
  qed
qed

lemma run_sound:
  "m \<in> set (run U p r s) \<Longrightarrow> \<exists>w\<in>lang U r. seen m = rev w @ seen s \<and> left s = w @ left m"
proof (induction r arbitrary: s m)
  case (Cls c)
  then show ?case by (auto split: list.splits if_splits)
next
  case (Lit l)
  then have "take (length l) (left s) = l" "m = s\<lparr>seen := rev l @ seen s, left := drop (length l) (left s)\<rparr>"
    by (auto split: if_splits)
  then show ?case by (simp, metis append_take_drop_id)
next
  case (Cat a b)
  from Cat.prems obtain m1 where m1: "m1 \<in> set (run U p a s)" "m \<in> set (run U p b m1)"
    by auto
  from Cat.IH(1) [OF m1(1)] obtain u where
    u: "u \<in> lang U a" "seen m1 = rev u @ seen s" "left s = u @ left m1" by blast
  from Cat.IH(2) [OF m1(2)] obtain v where
    v: "v \<in> lang U b" "seen m = rev v @ seen m1" "left m1 = v @ left m" by blast
  from u v show ?case
    by (intro bexI [of _ "u @ v"]) auto
next
  case (Opt a)
  then show ?case by auto
next
  case (Rep lo hi c)
  then obtain sn lf where "(sn, lf) \<in> set (rep_from U c lo hi (seen s) (left s))"
    "m = s\<lparr>seen := sn, left := lf\<rparr>" by auto
  with rep_from_sound [of sn lf U c lo hi "seen s" "left s"] show ?case by auto
next
  case WordB
  then show ?case by (auto split: if_splits)
next
  case (Grp a)
  then obtain m1 where "m1 \<in> set (run U p a s)" "seen m = seen m1" "left m = left m1" by auto
  with Grp.IH [of m1 s] show ?case by auto
qed

declare findall_from.simps [simp del]

text \<open>
  Every entry of a match list is the item of the first outcome of \<open>run\<close> at some position;
  for a pattern without a group it is a string of the pattern's language, and the entries lie
  in the text from left to right.
\<close>

lemma findall_from_items:
  "x \<in> set (findall_from U r p t) \<Longrightarrow>
     \<exists>p' t' m ms. run U p' r (start t') = m # ms \<and> x = item r m"
proof (induction U r p t rule: findall_from.induct)
  case (1 U r p t)
  show ?case
  proof (cases "run U p r (start t)")
    case Nil
    with "1.prems" obtain y ys where t: "t = y # ys" and x: "x \<in> set (findall_from U r (Some y) ys)"
      by (subst (asm) findall_from.simps) (auto split: list.splits)
    from "1.IH"(1) [OF Nil t x] show ?thesis .
  next
    case (Cons m ms)
    show ?thesis
    proof (cases "x = item r m")
      case True
      with Cons show ?thesis by blast
    next
      case False
      with "1.prems" Cons have
        rest: "x \<in> set (case t of [] \<Rightarrow> [] | y # ys \<Rightarrow>
                 (case seen m of [] \<Rightarrow> findall_from U r (Some y) ys
                  | c # cs \<Rightarrow> findall_from U r (Some c) (drop (length (c # cs)) t)))"
        by (subst (asm) findall_from.simps) simp
      then obtain y ys where t: "t = y # ys" by (cases t) auto
      show ?thesis
      proof (cases "seen m")
        case Nil
        with rest t have "x \<in> set (findall_from U r (Some y) ys)" by simp
        from "1.IH"(2) [OF Cons t Nil this] show ?thesis .
      next
        case (Cons c cs)
        with rest t have "x \<in> set (findall_from U r (Some c) (drop (length (c # cs)) t))" by simp
        from "1.IH"(3) [OF \<open>run U p r (start t) = m # ms\<close> t Cons this] show ?thesis .
      qed
    qed
  qed
qed

lemma findall_lang:
  assumes "groups r = 0" and "x \<in> set (findall U r t)"
  shows "x \<in> lang U r"
proof -
  from findall_from_items [OF assms(2) [unfolded findall_def]] obtain p' t' m ms where
    m: "run U p' r (start t') = m # ms" "x = item r m" by blast
  then have "m \<in> set (run U p' r (start t'))" by simp
  from run_sound [OF this] obtain w where "w \<in> lang U r" "seen m = rev w @ seen (start t')" by blast
  with m(2) assms(1) show ?thesis by (simp add: item_def start_def)
qed

lemma in_order_ConsI: "t = pre @ m @ post \<Longrightarrow> in_order ms post \<Longrightarrow> in_order (m # ms) t"
  by auto

lemma in_order_prepend: "in_order ms t \<Longrightarrow> in_order ms (pre @ t)"
proof (cases ms)
  case Nil
  then show ?thesis by simp
next
  case (Cons m ms')
  assume "in_order ms t"
  with Cons obtain pre' post where "t = pre' @ m @ post" "in_order ms' post" by auto
  then have "pre @ t = (pre @ pre') @ m @ post \<and> in_order ms' post" by simp
  with Cons show ?thesis by (metis in_order.simps(2))
qed

lemma findall_from_in_order:
  "groups r = 0 \<Longrightarrow> in_order (findall_from U r p t) t"
proof (induction U r p t rule: findall_from.induct)
  case (1 U r p t)
  show ?case
  proof (cases "run U p r (start t)")
    case Nil
    show ?thesis
    proof (cases t)
      case Nil
      with \<open>run U p r (start t) = []\<close> show ?thesis
        by (subst findall_from.simps) simp
    next
      case (Cons y ys)
      from "1.IH"(1) [OF Nil Cons "1.prems"] have "in_order (findall_from U r (Some y) ys) ([y] @ ys)"
        by (rule in_order_prepend)
      with Nil Cons show ?thesis
        by (subst findall_from.simps) simp
    qed
  next
    case (Cons m ms)
    then have "m \<in> set (run U p r (start t))" by simp
    from run_sound [OF this] have t: "t = rev (seen m) @ left m"
      by (auto simp: start_def)
    have it: "item r m = rev (seen m)" using "1.prems" by (simp add: item_def)
    show ?thesis
    proof (cases t)
      case Nil
      with t have "seen m = []" by simp
      with Nil Cons it show ?thesis
        by (subst findall_from.simps) simp
    next
      case tc: (Cons y ys)
      show ?thesis
      proof (cases "seen m")
        case Nil
        from "1.IH"(2) [OF Cons tc Nil "1.prems"]
        have "in_order (findall_from U r (Some y) ys) ([y] @ ys)"
          by (rule in_order_prepend)
        then have "in_order ([] # findall_from U r (Some y) ys) t"
          using tc by (intro in_order_ConsI [of _ "[]" _ "y # ys"]) simp_all
        with Nil Cons tc it show ?thesis
          by (subst findall_from.simps) simp
      next
        case sc: (Cons c cs)
        from t have d: "drop (length (c # cs)) t = left m"
          using sc by (metis append_eq_conv_conj length_rev)
        from "1.IH"(3) [OF Cons tc sc "1.prems"] d
        have "in_order (findall_from U r (Some c) (drop (length (c # cs)) t)) (left m)"
          by simp
        with t have "in_order (rev (seen m) # findall_from U r (Some c) (drop (length (c # cs)) t)) t"
          by (intro in_order_ConsI [of _ "[]" _ "left m"]) simp_all
        with sc Cons tc it show ?thesis
          by (subst findall_from.simps) simp
      qed
    qed
  qed
qed

lemma lang_minlen: "w \<in> lang U r \<Longrightarrow> minlen r \<le> length w"
  by (induction r arbitrary: w) fastforce+

lemma lang_avoids: "avoids U k r \<Longrightarrow> w \<in> lang U r \<Longrightarrow> k \<notin> set w"
  by (induction r arbitrary: w) fastforce+

lemma nth_avoids: "n < length xs \<Longrightarrow> k \<notin> set xs \<Longrightarrow> xs ! n \<noteq> k"
  by (metis nth_mem)

text \<open>
  What the patterns of the registry match: a lower bound on the length and, where it holds,
  the absence of the masking character \<open>*\<close> (code point 42). An e-mail match is a non-empty
  local part, \<open>@\<close> (code point 64) and a domain, neither holding another \<open>@\<close>.
\<close>

lemmas class_defs = ord_def digit_def upper_def lower_def num_def is_digit_def is_space_def

lemma ssn_shape: "w \<in> lang U ssn_rx \<Longrightarrow> 9 \<le> length w \<and> 42 \<notin> set w"
  using lang_minlen [of w U ssn_rx] lang_avoids [of U 42 ssn_rx w]
  by (simp add: ssn_rx_def class_defs)

lemma credit_card_shape: "w \<in> lang U credit_card_rx \<Longrightarrow> 16 \<le> length w \<and> 42 \<notin> set w"
  using lang_minlen [of w U credit_card_rx] lang_avoids [of U 42 credit_card_rx w]
  by (simp add: credit_card_rx_def class_defs eval_nat_numeral)

lemma passport_shape: "w \<in> lang U passport_rx \<Longrightarrow> 7 \<le> length w \<and> 42 \<notin> set w"
  using lang_minlen [of w U passport_rx] lang_avoids [of U 42 passport_rx w]
  by (simp add: passport_rx_def class_defs)

lemma driver_license_shape: "w \<in> lang U driver_license_rx \<Longrightarrow> 8 \<le> length w \<and> 42 \<notin> set w"
  using lang_minlen [of w U driver_license_rx] lang_avoids [of U 42 driver_license_rx w]
  by (simp add: driver_license_rx_def class_defs)

lemma ip_address_shape: "w \<in> lang U ip_address_rx \<Longrightarrow> 7 \<le> length w \<and> 42 \<notin> set w"
  using lang_minlen [of w U ip_address_rx] lang_avoids [of U 42 ip_address_rx w]
  by (simp add: ip_address_rx_def class_defs)

lemma aws_access_key_shape: "w \<in> lang U aws_access_key_rx \<Longrightarrow> 20 \<le> length w \<and> 42 \<notin> set w"
  using lang_minlen [of w U aws_access_key_rx] lang_avoids [of U 42 aws_access_key_rx w]
  by (simp add: aws_access_key_rx_def class_defs)

lemma azure_shape:
  "w \<in> lang U azure_connection_string_rx \<Longrightarrow> 58 \<le> length w \<and> w ! 3 = 97"
  using lang_minlen [of w U azure_connection_string_rx]
  by (auto simp add: azure_connection_string_rx_def class_defs)

lemma email_shape:
  "w \<in> lang U email_rx \<Longrightarrow>
     \<exists>loc dmn. w = loc @ 64 # dmn \<and> loc \<noteq> [] \<and> 64 \<notin> set loc \<and> 42 \<notin> set loc \<and> 64 \<notin> set dmn"
proof -
  assume "w \<in> lang U email_rx"
  then obtain w1 w2 w3 where
    w: "w = w1 @ [64] @ w2 @ [46] @ w3" "1 \<le> length w1"
       "\<forall>x\<in>set w1. in_cls U (Among [upper, lower, num, Chr (ord CHR ''.''), Chr (ord CHR ''_''),
       Chr (ord CHR ''%''), Chr (ord CHR ''+''), Chr (ord CHR ''-'')]) x"
       "\<forall>x\<in>set w2. in_cls U (Among [upper, lower, num, Chr (ord CHR ''.''), Chr (ord CHR ''-'')]) x"
       "\<forall>x\<in>set w3. in_cls U (Among [upper, Chr (ord CHR ''|''), lower]) x"
    by (auto simp add: email_rx_def ord_def)
  have "64 \<notin> set w1" "42 \<notin> set w1" using w(3) by (auto simp: class_defs)
  moreover have "64 \<notin> set (w2 @ [46] @ w3)" using w(4,5) by (auto simp: class_defs)
  moreover have "w1 \<noteq> []" using w(2) by auto
  ultimately show ?thesis using w(1) by (intro exI [of _ w1] exI [of _ "w2 @ [46] @ w3"]) simp
qed

lemma registry_groups:
  "groups ssn_rx = 0" "groups credit_card_rx = 0" "groups email_rx = 0"
  "groups passport_rx = 0" "groups driver_license_rx = 0" "groups ip_address_rx = 0"
  "groups aws_access_key_rx = 0" "groups azure_connection_string_rx = 0"
  by (simp_all add: ssn_rx_def credit_card_rx_def email_rx_def passport_rx_def
      driver_license_rx_def ip_address_rx_def aws_access_key_rx_def
      azure_connection_string_rx_def eval_nat_numeral)

lemma registry_cases:
  assumes "(name, r) \<in> set PII_PATTERNS"
  obtains
      (ssn) "name = ''SSN''" "r = ssn_rx"
    | (cc) "name = ''Credit Card''" "r = credit_card_rx"
    | (email) "name = ''Email''" "r = email_rx"
    | (phone) "name = ''Phone Number''" "r = phone_rx"
    | (passport) "name = ''Passport Number''" "r = passport_rx"
    | (dl) "name = ''US Driver License''" "r = driver_license_rx"
    | (ip) "name = ''IP Address''" "r = ip_address_rx"
    | (aws) "name = ''AWS Access Key''" "r = aws_access_key_rx"
    | (azure) "name = ''Azure Connection String''" "r = azure_connection_string_rx"
proof -
  from assms have
    "(name, r) = (''SSN'', ssn_rx) \<or> (name, r) = (''Credit Card'', credit_card_rx)
     \<or> (name, r) = (''Email'', email_rx) \<or> (name, r) = (''Phone Number'', phone_rx)
     \<or> (name, r) = (''Passport Number'', passport_rx)
     \<or> (name, r) = (''US Driver License'', driver_license_rx)
     \<or> (name, r) = (''IP Address'', ip_address_rx)
     \<or> (name, r) = (''AWS Access Key'', aws_access_key_rx)
     \<or> (name, r) = (''Azure Connection String'', azure_connection_string_rx)"
    unfolding PII_PATTERNS_def by (simp only: set_simps insert_iff empty_iff simp_thms)
  then show thesis
    using ssn cc email phone passport dl ip aws azure by (elim disjE) (simp_all only: prod.inject)
qed

lemma registry_minlen:
  assumes "(name, r) \<in> set PII_PATTERNS"
  shows "6 \<le> minlen r"
  using assms
  by (cases rule: registry_cases)
    (simp_all add: ssn_rx_def credit_card_rx_def email_rx_def phone_rx_def passport_rx_def
      driver_license_rx_def ip_address_rx_def aws_access_key_rx_def
      azure_connection_string_rx_def eval_nat_numeral)

lemma registry_match_nonempty:
  assumes "(name, r) \<in> set PII_PATTERNS" and "m \<in> set (run U p r (start t))"
  shows "seen m \<noteq> []"
proof -
  from run_sound [OF assms(2)] obtain w where
    w: "w \<in> lang U r" "seen m = rev w @ seen (start t)" by blast
  from lang_minlen [OF w(1)] registry_minlen [OF assms(1)] have "6 \<le> length w" by simp
  with w(2) show ?thesis by auto
qed

lemma registry_shapes:
  assumes "(name, r) \<in> set PII_PATTERNS" and "raw \<in> set (findall U r txt)"
  shows "(name \<in> {''SSN'', ''Credit Card''} \<longrightarrow> 4 < length raw \<and> 42 \<notin> set raw)
       \<and> (name = ''Email'' \<longrightarrow>
            (\<exists>loc dmn. raw = loc @ 64 # dmn \<and> loc \<noteq> [] \<and> 64 \<notin> set loc \<and> 42 \<notin> set loc
               \<and> 64 \<notin> set dmn))
       \<and> (name \<notin> {''SSN'', ''Credit Card'', ''Email'', ''Phone Number''} \<longrightarrow>
            6 < length raw \<and> raw ! 3 \<noteq> 42)"
proof -
  from assms(1) show ?thesis
  proof (cases rule: registry_cases)
    case ssn
    with assms(2) have "raw \<in> lang U ssn_rx" by (simp add: findall_lang registry_groups)
    from ssn_shape [OF this] ssn(1) show ?thesis by simp
  next
    case cc
    with assms(2) have "raw \<in> lang U credit_card_rx" by (simp add: findall_lang registry_groups)
    from credit_card_shape [OF this] cc(1) show ?thesis by simp
  next
    case email
    with assms(2) have "raw \<in> lang U email_rx" by (simp add: findall_lang registry_groups)
    from email_shape [OF this] email(1) show ?thesis by simp
  next
    case phone
    then show ?thesis by simp
  next
    case passport
    with assms(2) have "raw \<in> lang U passport_rx" by (simp add: findall_lang registry_groups)
    from passport_shape [OF this] have s: "7 \<le> length raw" "42 \<notin> set raw" by simp_all
    then have "raw ! 3 \<noteq> 42" by (intro nth_avoids) simp_all
    with s passport(1) show ?thesis by simp
  next
    case dl
    with assms(2) have "raw \<in> lang U driver_license_rx" by (simp add: findall_lang registry_groups)
    from driver_license_shape [OF this] have s: "8 \<le> length raw" "42 \<notin> set raw" by simp_all
    then have "raw ! 3 \<noteq> 42" by (intro nth_avoids) simp_all
    with s dl(1) show ?thesis by simp
  next
    case ip
    with assms(2) have "raw \<in> lang U ip_address_rx" by (simp add: findall_lang registry_groups)
    from ip_address_shape [OF this] have s: "7 \<le> length raw" "42 \<notin> set raw" by simp_all
    then have "raw ! 3 \<noteq> 42" by (intro nth_avoids) simp_all
    with s ip(1) show ?thesis by simp
  next
    case aws
    with assms(2) have "raw \<in> lang U aws_access_key_rx" by (simp add: findall_lang registry_groups)
    from aws_access_key_shape [OF this] have s: "20 \<le> length raw" "42 \<notin> set raw" by simp_all
    then have "raw ! 3 \<noteq> 42" by (intro nth_avoids) simp_all
    with s aws(1) show ?thesis by simp
  next
    case azure
    with assms(2) have "raw \<in> lang U azure_connection_string_rx"
      by (simp add: findall_lang registry_groups)
    from azure_shape [OF this] azure(1) show ?thesis by simp
  qed
qed

section \<open>Properties of the redaction\<close>

declare split.simps [simp del]

lemma split_once:
  assumes "sep \<notin> set a" and "sep \<notin> set b"
  shows "split sep (a @ sep # b) = [a, b]"
proof -
  have a: "takeWhile (\<lambda>x. x \<noteq> sep) (a @ sep # b) = a"
    using assms(1) by (induction a) auto
  have d: "dropWhile (\<lambda>x. x \<noteq> sep) (a @ sep # b) = sep # b"
    using assms(1) by (induction a) auto
  have b: "dropWhile (\<lambda>x. x \<noteq> sep) b = []"
    using assms(2) by auto
  have "split sep b = [b]"
    by (subst split.simps) (simp add: b)
  then show ?thesis
    by (subst split.simps) (simp add: a d)
qed

lemma redact_email:
  assumes "loc \<noteq> []" and "64 \<notin> set loc" and "64 \<notin> set dmn"
  shows "redact ''Email'' (loc @ 64 # dmn)
           = Inr (Some ([hd loc] @ stars (len loc - 2) @ [last loc] @ str ''@'' @ dmn))"
proof -
  have "split (ord CHR ''@'') (loc @ 64 # dmn) = [loc, dmn]"
    using split_once [OF assms(2,3)] by (simp add: ord_def)
  moreover have "first_char loc = Inr (hd loc)"
    using assms(1) by (cases loc) (simp_all add: first_char_def)
  moreover have "last_char loc = Inr (last loc)"
    using assms(1) by (simp add: last_char_def)
  ultimately show ?thesis by (simp add: redact_def)
qed

lemma redact_tail:
  "name \<in> {''SSN'', ''Credit Card'', ''Phone Number''} \<Longrightarrow>
     redact name raw = Inr (Some (stars (len raw - 4) @ tail_slice 4 raw))"
  by (auto simp: redact_def)

lemma redact_middle:
  "name \<notin> {''Email'', ''SSN'', ''Credit Card'', ''Phone Number''} \<Longrightarrow> 6 < length raw \<Longrightarrow>
     redact name raw = Inr (Some (take 3 raw @ stars (len raw - 6) @ tail_slice 3 raw))"
  by (simp add: redact_def len_def)

lemma tail_mask_differs:
  assumes "4 < length raw" and "42 \<notin> set raw"
  shows "stars (len raw - 4) @ tail_slice 4 raw \<noteq> raw"
proof
  assume eq: "stars (len raw - 4) @ tail_slice 4 raw = raw"
  from assms(1) obtain k where k: "nat (len raw - 4) = Suc k"
    by (cases "nat (len raw - 4)") (auto simp: len_def)
  then have "hd (stars (len raw - 4) @ tail_slice 4 raw) = 42"
    by (simp add: stars_def ord_def)
  with eq have "hd raw = 42" by simp
  moreover from assms(1) have "hd raw \<in> set raw" by (cases raw) auto
  ultimately show False using assms(2) by simp
qed

lemma mid_mask_differs:
  assumes "6 < length raw" and "raw ! 3 \<noteq> 42"
  shows "take 3 raw @ stars (len raw - 6) @ tail_slice 3 raw \<noteq> raw"
proof
  assume eq: "take 3 raw @ stars (len raw - 6) @ tail_slice 3 raw = raw"
  from assms(1) obtain k where k: "nat (len raw - 6) = Suc k"
    by (cases "nat (len raw - 6)") (auto simp: len_def)
  from assms(1) have "length (take 3 raw) = 3" by simp
  then have "(take 3 raw @ stars (len raw - 6) @ tail_slice 3 raw) ! 3
               = (stars (len raw - 6) @ tail_slice 3 raw) ! 0"
    by (simp add: nth_append)
  also have "\<dots> = 42" using k by (simp add: stars_def ord_def)
  finally show False using eq assms(2) by simp
qed

lemma email_mask_differs:
  assumes "loc \<noteq> []" and "42 \<notin> set loc" and "length loc \<noteq> 2"
  shows "[hd loc] @ stars (len loc - 2) @ [last loc] @ str ''@'' @ dmn \<noteq> loc @ str ''@'' @ dmn"
proof (cases "length loc = 1")
  case True
  then have "length ([hd loc] @ stars (len loc - 2) @ [last loc] @ str ''@'' @ dmn)
               \<noteq> length (loc @ str ''@'' @ dmn)"
    by (simp add: stars_def len_def)
  then show ?thesis by metis
next
  case False
  moreover from assms(1) have "length loc \<noteq> 0" by simp
  ultimately have three: "3 \<le> length loc" using assms(3) by linarith
  then obtain k where k: "nat (len loc - 2) = Suc k"
    by (cases "nat (len loc - 2)") (auto simp: len_def)
  have "([hd loc] @ stars (len loc - 2) @ [last loc] @ str ''@'' @ dmn) ! 1 = 42"
    using k by (simp add: stars_def ord_def)
  moreover have "(loc @ str ''@'' @ dmn) ! 1 = loc ! 1"
    using three by (simp add: nth_append)
  moreover have "loc ! 1 \<in> set loc" using three by simp
  ultimately show ?thesis using assms(2) by metis
qed

lemma email_mask_same:
  assumes "length loc = 2"
  shows "[hd loc] @ stars (len loc - 2) @ [last loc] @ rest = loc @ rest"
proof -
  from assms obtain a b where "loc = [a, b]"
    by (cases loc; cases "tl loc") auto
  then show ?thesis by (simp add: stars_def len_def)
qed

lemma redact_defined:
  assumes "(name, r) \<in> set PII_PATTERNS" and "raw \<in> set (findall U r txt)"
  shows "\<exists>x. redact name raw = Inr x"
proof -
  consider "name \<in> {''SSN'', ''Credit Card'', ''Phone Number''}" | "name = ''Email''"
    | "name \<notin> {''SSN'', ''Credit Card'', ''Email'', ''Phone Number''}" by blast
  then show ?thesis
  proof cases
    case 1
    then show ?thesis by (simp add: redact_tail)
  next
    case 2
    with registry_shapes [OF assms] obtain loc dmn where
      "raw = loc @ 64 # dmn" "loc \<noteq> []" "64 \<notin> set loc" "64 \<notin> set dmn" by auto
    with 2 redact_email [of loc dmn] show ?thesis by simp
  next
    case 3
    with registry_shapes [OF assms] have "6 < length raw" by auto
    with 3 show ?thesis by (auto simp: redact_middle)
  qed
qed

lemma redact_all_defined:
  "\<forall>raw\<in>set ms. \<exists>x. redact name raw = Inr x \<Longrightarrow> \<exists>xs. redact_all name ms = Inr xs"
  by (induction ms) auto

lemma scan_patterns_defined:
  "set ps \<subseteq> set PII_PATTERNS \<Longrightarrow> \<exists>fs'. scan_patterns U ps txt fs = Inr fs'"
proof (induction ps arbitrary: fs)
  case Nil
  then show ?case by simp
next
  case (Cons a ps)
  obtain name r where a: "a = (name, r)" by (cases a)
  with Cons.prems have "(name, r) \<in> set PII_PATTERNS" by simp
  then have "\<forall>raw\<in>set (findall U r txt). \<exists>x. redact name raw = Inr x"
    using redact_defined by blast
  from redact_all_defined [OF this] obtain xs where "redact_all name (findall U r txt) = Inr xs" ..
  with Cons.IH Cons.prems a show ?case by (simp add: Let_def)
qed

section \<open>The content scanner: match lists, redaction, totality\<close>

text \<open>
  C1. The claim is that for every pattern of the registry the match list holds the matched
  substrings of the text, a Phone Number entry being the full phone number that matched.
  On the text \<open>555-123-4567\<close> the phone pattern matches the whole text (first conjunct),
  but its optional country-code group \<^verbatim>\<open>(\+\d{1,2}\s)?\<close> is a capturing group, so
  \<open>re.findall\<close> reports the text of that group instead of the match: the empty string here,
  and \<open>+1 \<close> where a country code stands before the number. The sample reported for the
  phone number is then the empty string. The Credit Card pattern writes its group as
  \<^verbatim>\<open>(?:...)\<close> and does not have this defect.
\<close>

theorem phone_match_list_loses_number:
  "run ascii_only None phone_rx (start (str ''555-123-4567''))
     = [\<lparr>seen = rev (str ''555-123-4567''), left = [], grp = None\<rparr>]
   \<and> findall ascii_only phone_rx (str ''555-123-4567'') = [[]]
   \<and> findall ascii_only phone_rx (str ''a+1 555-123-4567'') = [str ''+1 '']
   \<and> scan_text_for_pii ascii_only (str ''555-123-4567'')
       = Inr [(''Phone Number'', \<lparr>count = 1, samples = [[]]\<rparr>)]"
  by code_simp

text \<open>
  For the eight patterns other than Phone Number the match list is as C1 says: its entries
  lie in the text one after the other, from left to right and without overlap, and each is a
  non-empty string of the pattern's language.
\<close>

theorem registry_match_lists_in_order:
  assumes "(name, r) \<in> set PII_PATTERNS" and "name \<noteq> ''Phone Number''"
  shows "in_order (findall U r txt) txt
     \<and> (\<forall>raw\<in>set (findall U r txt). raw \<in> lang U r \<and> raw \<noteq> [])"
proof -
  from assms have g: "groups r = 0"
    by (cases rule: registry_cases) (simp_all add: registry_groups)
  then have "in_order (findall U r txt) txt"
    unfolding findall_def by (rule findall_from_in_order)
  moreover have "raw \<in> lang U r \<and> raw \<noteq> []" if "raw \<in> set (findall U r txt)" for raw
  proof
    from g that show "raw \<in> lang U r" by (rule findall_lang)
    from registry_shapes [OF assms(1) that] assms(2) show "raw \<noteq> []"
      by (cases "name \<in> {''SSN'', ''Credit Card''}"; cases "name = ''Email''") auto
  qed
  ultimately show ?thesis by blast
qed

text \<open>
  The statement at the SSN pattern and the text \<open>SSN: 123-45-6789\<close>: the match list is the
  one substring \<open>123-45-6789\<close>.
\<close>

theorem registry_match_lists_in_order_witness:
  "(''SSN'', ssn_rx) \<in> set PII_PATTERNS
   \<and> findall ascii_only ssn_rx (str ''SSN: 123-45-6789'') = [str ''123-45-6789'']
   \<and> in_order [str ''123-45-6789''] (str ''SSN: 123-45-6789'')
   \<and> str ''123-45-6789'' \<in> lang ascii_only ssn_rx"
proof -
  have h1: "(''SSN'', ssn_rx) \<in> set PII_PATTERNS" by (simp add: PII_PATTERNS_def)
  have h2: "''SSN'' \<noteq> ''Phone Number''" by simp
  have e: "findall ascii_only ssn_rx (str ''SSN: 123-45-6789'') = [str ''123-45-6789'']"
    by code_simp
  from registry_match_lists_in_order [OF h1 h2, of ascii_only "str ''SSN: 123-45-6789''"] h1 e
  show ?thesis by simp
qed

text \<open>
  C2. The claim gives the sample as \<open>*****6789\<close>, five asterisks before the last four
  digits. That is not what the scan of \<open>SSN: 123-45-6789\<close> returns.
\<close>

theorem ssn_scenario_counterexample:
  "scan_text_for_pii ascii_only (str ''SSN: 123-45-6789'')
     \<noteq> Inr [(''SSN'', \<lparr>count = 1, samples = [str ''*****6789'']\<rparr>)]"
  by code_simp

text \<open>
  C2, with the sample the code computes. The match \<open>123-45-6789\<close> has eleven characters
  and all but the last four are masked: the scan of \<open>SSN: 123-45-6789\<close> returns exactly
  one finding, for SSN, with count 1 and the single sample \<open>*******6789\<close> (seven
  asterisks). This holds whatever the Unicode tables of the runtime are.
\<close>

theorem ssn_scenario:
  "scan_text_for_pii U (str ''SSN: 123-45-6789'')
     = Inr [(''SSN'', \<lparr>count = 1, samples = [str ''*******6789'']\<rparr>)]"
  by code_simp

text \<open>
  C3. The claim says that a redacted sample never equals the raw match. The e-mail policy
  keeps the first and the last character of the local part and masks what lies between
  them, so an address whose local part has two characters is reported unmasked.
\<close>

theorem redaction_masks_match_counterexample:
  "findall ascii_only email_rx (str ''ab@b.co'') = [str ''ab@b.co'']
   \<and> redact ''Email'' (str ''ab@b.co'') = Inr (Some (str ''ab@b.co''))
   \<and> scan_text_for_pii ascii_only (str ''ab@b.co'')
       = Inr [(''Email'', \<lparr>count = 1, samples = [str ''ab@b.co'']\<rparr>)]"
  by code_simp

text \<open>
  C3, for every pattern of the registry but Phone Number and every entry \<open>raw\<close> of its match
  list on any text:
  \<^item> SSN, Credit Card: the sample is the last four characters of \<open>raw\<close> behind
    \<open>len raw - 4\<close> asterisks, at least one, and differs from \<open>raw\<close>;
  \<^item> Email: \<open>raw\<close> is a non-empty local part, \<open>@\<close> and a domain; the sample is the first
    and the last character of the local part around \<open>len loc - 2\<close> asterisks, then \<open>@\<close> and
    the domain unchanged; it differs from \<open>raw\<close> exactly when the local part does not have
    two characters;
  \<^item> all other categories: the sample is the first three and the last three characters of
    \<open>raw\<close> around \<open>len raw - 6\<close> asterisks, at least one, and differs from \<open>raw\<close>.
\<close>

theorem redaction_masks_match:
  assumes "(name, r) \<in> set PII_PATTERNS" and "name \<noteq> ''Phone Number''"
    and "raw \<in> set (findall U r txt)"
  shows "(name \<in> {''SSN'', ''Credit Card''} \<longrightarrow>
            redact name raw = Inr (Some (stars (len raw - 4) @ tail_slice 4 raw))
            \<and> 4 < len raw \<and> stars (len raw - 4) @ tail_slice 4 raw \<noteq> raw)
       \<and> (name = ''Email'' \<longrightarrow>
            (\<exists>loc dmn. raw = loc @ str ''@'' @ dmn \<and> loc \<noteq> [] \<and> ord CHR ''@'' \<notin> set loc
               \<and> redact name raw =
                   Inr (Some ([hd loc] @ stars (len loc - 2) @ [last loc] @ str ''@'' @ dmn))
               \<and> ([hd loc] @ stars (len loc - 2) @ [last loc] @ str ''@'' @ dmn \<noteq> raw
                    \<longleftrightarrow> length loc \<noteq> 2)))
       \<and> (name \<notin> {''SSN'', ''Credit Card'', ''Email''} \<longrightarrow>
            redact name raw = Inr (Some (take 3 raw @ stars (len raw - 6) @ tail_slice 3 raw))
            \<and> 6 < len raw \<and> take 3 raw @ stars (len raw - 6) @ tail_slice 3 raw \<noteq> raw)"
proof (intro conjI impI)
  assume n: "name \<in> {''SSN'', ''Credit Card''}"
  with registry_shapes [OF assms(1,3)] have s: "4 < length raw" "42 \<notin> set raw" by auto
  from n show "redact name raw = Inr (Some (stars (len raw - 4) @ tail_slice 4 raw))"
    by (auto simp: redact_tail)
  from s show "4 < len raw" by (simp add: len_def)
  from s show "stars (len raw - 4) @ tail_slice 4 raw \<noteq> raw" by (rule tail_mask_differs)
next
  assume n: "name = ''Email''"
  with registry_shapes [OF assms(1,3)] obtain loc dmn where
    s: "raw = loc @ 64 # dmn" "loc \<noteq> []" "64 \<notin> set loc" "42 \<notin> set loc" "64 \<notin> set dmn"
    by auto
  have r: "redact name raw = Inr (Some ([hd loc] @ stars (len loc - 2) @ [last loc] @ str ''@'' @ dmn))"
    using redact_email [OF s(2,3,5)] n s(1) by simp
  have d: "[hd loc] @ stars (len loc - 2) @ [last loc] @ str ''@'' @ dmn \<noteq> raw
             \<longleftrightarrow> length loc \<noteq> 2"
    using email_mask_differs [OF s(2,4), of dmn] email_mask_same [of loc "str ''@'' @ dmn"] s(1)
    by (auto simp: ord_def)
  from s r d show "\<exists>loc dmn. raw = loc @ str ''@'' @ dmn \<and> loc \<noteq> [] \<and> ord CHR ''@'' \<notin> set loc
               \<and> redact name raw =
                   Inr (Some ([hd loc] @ stars (len loc - 2) @ [last loc] @ str ''@'' @ dmn))
               \<and> ([hd loc] @ stars (len loc - 2) @ [last loc] @ str ''@'' @ dmn \<noteq> raw
                    \<longleftrightarrow> length loc \<noteq> 2)"
    by (intro exI [of _ loc] exI [of _ dmn]) (simp add: ord_def)
next
  assume n: "name \<notin> {''SSN'', ''Credit Card'', ''Email''}"
  with assms(2) registry_shapes [OF assms(1,3)] have s: "6 < length raw" "raw ! 3 \<noteq> 42" by auto
  from n assms(2) s(1)
  show "redact name raw = Inr (Some (take 3 raw @ stars (len raw - 6) @ tail_slice 3 raw))"
    by (auto simp: redact_middle)
  from s show "6 < len raw" by (simp add: len_def)
  from s show "take 3 raw @ stars (len raw - 6) @ tail_slice 3 raw \<noteq> raw" by (rule mid_mask_differs)
qed

text \<open>
  The statement at the SSN pattern: the match \<open>123-45-6789\<close> of the text
  \<open>SSN: 123-45-6789\<close> is reported as \<open>*******6789\<close>.
\<close>

theorem redaction_masks_match_witness:
  "(''SSN'', ssn_rx) \<in> set PII_PATTERNS
   \<and> str ''123-45-6789'' \<in> set (findall ascii_only ssn_rx (str ''SSN: 123-45-6789''))
   \<and> redact ''SSN'' (str ''123-45-6789'') = Inr (Some (str ''*******6789''))
   \<and> str ''*******6789'' \<noteq> str ''123-45-6789''"
proof -
  have h1: "(''SSN'', ssn_rx) \<in> set PII_PATTERNS" by (simp add: PII_PATTERNS_def)
  have h2: "''SSN'' \<noteq> ''Phone Number''" by simp
  have h3: "str ''123-45-6789'' \<in> set (findall ascii_only ssn_rx (str ''SSN: 123-45-6789''))"
    by code_simp
  have r: "replicate 7 (42 :: nat) = [42, 42, 42, 42, 42, 42, 42]" by code_simp
  from redaction_masks_match [OF h1 h2 h3] h1 h3 show ?thesis
    by (simp add: stars_def len_def tail_slice_def ord_def r)
qed

text \<open>
  C10. \<open>scan_text_for_pii\<close> returns a findings map on every text and never raises. The two
  places that could raise, \<open>match[0]\<close> and \<open>parts[0][0]\<close> on an empty string, are reached
  only with matches of patterns that cannot match the empty string. The short and empty
  strings that the Phone Number group contributes go through the slice branch, where the
  mask count \<open>len(match) - 4\<close> is negative: \<open>'*' * n\<close> is the empty string for \<open>n \<le> 0\<close>,
  so such a string is reported as it is.
\<close>

theorem scan_text_for_pii_total:
  "(\<exists>fs. scan_text_for_pii U txt = Inr fs)
   \<and> (n \<le> 0 \<longrightarrow> stars n = [])
   \<and> (length raw < 4 \<longrightarrow> redact ''Phone Number'' raw = Inr (Some raw))"
proof (intro conjI impI)
  show "\<exists>fs. scan_text_for_pii U txt = Inr fs"
    unfolding scan_text_for_pii_def by (rule scan_patterns_defined) simp
  show "stars n = []" if "n \<le> 0" using that by (simp add: stars_def)
  show "redact ''Phone Number'' raw = Inr (Some raw)" if "length raw < 4"
    using that by (simp add: redact_def stars_def len_def tail_slice_def)
qed

text \<open>
  The statement at the text \<open>555-123-4567\<close>, whose match list for Phone Number is the
  empty string alone.
\<close>

theorem scan_text_for_pii_total_witness:
  "scan_text_for_pii ascii_only (str ''555-123-4567'')
     = Inr [(''Phone Number'', \<lparr>count = 1, samples = [[]]\<rparr>)]
   \<and> stars (- 4) = []
   \<and> redact ''Phone Number'' [] = Inr (Some [])"
proof -
  have e: "scan_text_for_pii ascii_only (str ''555-123-4567'')
     = Inr [(''Phone Number'', \<lparr>count = 1, samples = [[]]\<rparr>)]" by code_simp
  from scan_text_for_pii_total [of ascii_only "str ''555-123-4567''" "- 4" "[]"] e
  show ?thesis by simp
qed

section \<open>The object scanner: skips and outcomes\<close>

text \<open>
  For a numerator from 0 to below \<open>2 ^ 53\<close> the division by \<open>1024 * 1024\<close> is exact: the
  quotient is a double. The equation \<open>truediv_code\<close> lets evaluation take this case first.
\<close>

declare bit_length.simps [simp del]

lemma bit_length_le: "n < 2 ^ j \<Longrightarrow> bit_length n \<le> j"
proof (induction j arbitrary: n)
  case 0
  then show ?case by (subst bit_length.simps) simp
next
  case (Suc j)
  show ?case
  proof (cases "n \<le> 0")
    case True
    then show ?thesis by (subst bit_length.simps) simp
  next
    case False
    from Suc.prems have "n div 2 < 2 ^ j" by simp
    from Suc.IH [OF this] False show ?thesis by (subst bit_length.simps) simp
  qed
qed

lemma bit_length_mega: "bit_length (1024 * 1024) = 21"
  by (simp add: bit_length.simps)

lemma round_half_even_int: "round_half_even (of_int n) = n"
  by (simp add: round_half_even_def)

lemma pow2_add: "pow2 (i + j) = pow2 i * pow2 j"
  by (auto simp: pow2_def power_add nat_add_distrib field_simps simp flip: power_add)


lemma truediv_exact:
  assumes "0 \<le> a" and "a < 2 ^ 53"
  shows "truediv a (1024 * 1024) = Inr (of_int a / (1024 * 1024))"
proof (cases "a = 0")
  case True
  then show ?thesis by (simp add: truediv_def)
next
  case False
  with assms(1) have pos: "0 < a" by simp
  define b :: int where "b = 1024 * 1024"
  define k where "k = max (exponent \<bar>a\<bar> \<bar>b\<bar> - 52) (- 1074)"
  define j where "j = nat (- 20 - k)"
  have b: "0 < b" "(of_int b :: rat) = 2 ^ 20" by (simp_all add: b_def)
  have "bit_length a \<le> 53" using assms(2) by (rule bit_length_le)
  then have "exponent \<bar>a\<bar> \<bar>b\<bar> \<le> 32"
    using pos bit_length_mega by (simp add: b_def exponent_def Let_def)
  then have k: "k = - 20 - int j" by (simp add: k_def j_def)
  have pk: "pow2 k = 1 / (2 ^ 20 * 2 ^ j)"
    by (simp add: k pow2_def nat_add_distrib power_add)
  have "(of_int \<bar>a\<bar> :: rat) / of_int \<bar>b\<bar> / pow2 k = of_int (a * 2 ^ j)"
    using pos b by (simp add: pk)
  then have q: "round_half_even (of_int \<bar>a\<bar> / of_int \<bar>b\<bar> / pow2 k) = a * 2 ^ j"
    by (simp only: round_half_even_int)
  have r: "of_int (a * 2 ^ j) * pow2 k = (of_int a :: rat) / of_int b"
    using b by (simp add: pk)
  have "(of_int a :: rat) < 2 ^ 53" using assms(2) by (metis of_int_less_numeral_power_cancel_iff)
  moreover have "(2 :: rat) ^ 53 \<le> 2 ^ 1024" by (rule power_increasing) simp_all
  moreover have "(of_int a :: rat) / of_int b \<le> of_int a" using pos b by simp
  ultimately have small: "\<not> pow2 1024 \<le> (of_int a :: rat) / of_int b"
    by (simp add: pow2_def)
  have "truediv a b = Inr (of_int a / of_int b)"
    unfolding truediv_def Let_def k_def [symmetric] q r
    using pos b(1) small by simp
  then show ?thesis by (simp add: b_def)
qed


lemma truediv_code [code]:
  "truediv a b =
     (if b = 1048576 \<and> 0 \<le> a \<and> a < 9007199254740992 then Inr (of_int a / 1048576)
      else if b = 0 then Inl ZeroDivisionError
      else if a = 0 then Inr 0
      else
        let e = exponent \<bar>a\<bar> \<bar>b\<bar>;
            k = max (e - 52) (- 1074);
            m = round_half_even (of_int \<bar>a\<bar> / of_int \<bar>b\<bar> / pow2 k);
            r = of_int m * pow2 k
        in if pow2 1024 \<le> r then Inl OverflowError
           else Inr (if (a < 0) = (b < 0) then r else - r))"
proof (cases "b = 1048576 \<and> 0 \<le> a \<and> a < 9007199254740992")
  case True
  then have "truediv a b = Inr (of_int a / (1024 * 1024))"
    using truediv_exact [of a] by simp
  with True show ?thesis by simp
next
  case False
  then show ?thesis unfolding truediv_def by (simp only: if_False)
qed

text \<open>
  With a client whose calls answer awaitables the two skips are taken as the comments of
  \<open>scan_blob\<close> describe them: a blob over the limit is skipped before anything is
  downloaded, and content that is not well-formed UTF-8 is reported as not a text file.
\<close>

lemma scan_blob_awaited_too_large:
  assumes "get_blob_properties c = Inr (Awaitable (Inr sz))"
    and "sz > max_size_mb * 1024 * 1024" and "truediv sz (1024 * 1024) = Inr mb"
  shows "scan_blob U c max_size_mb =
           (\<lparr>scanned = False, reason = Some ''File too large'', size_mb = Some mb,
             findings = None, has_pii = None\<rparr>,
            [Get_blob_properties])"
  using assms by (simp add: scan_blob_def await_def)

lemma scan_blob_awaited_not_text:
  assumes "get_blob_properties c = Inr (Awaitable (Inr sz))"
    and "\<not> sz > max_size_mb * 1024 * 1024"
    and "download_blob c = Inr (Awaitable (Inr (Inr (Awaitable (Inr content)))))"
    and "utf8_decode content = None" and "truediv sz (1024 * 1024) = Inr mb"
  shows "scan_blob U c max_size_mb =
           (\<lparr>scanned = False, reason = Some ''Not a text file'', size_mb = Some mb,
             findings = None, has_pii = None\<rparr>,
            [Get_blob_properties, Download_blob, Readall])"
  using assms by (simp add: scan_blob_def await_def)

lemma awaited_skips:
  "scan_blob ascii_only large_client 10 =
     (\<lparr>scanned = False, reason = Some ''File too large'', size_mb = Some 15,
       findings = None, has_pii = None\<rparr>, [Get_blob_properties])"
  "scan_blob ascii_only binary_client 10 =
     (\<lparr>scanned = False, reason = Some ''Not a text file'', size_mb = Some (1 / 524288),
       findings = None, has_pii = None\<rparr>, [Get_blob_properties, Download_blob, Readall])"
  using scan_blob_awaited_too_large [of large_client "15 * 1024 * 1024" 10 15 ascii_only]
    scan_blob_awaited_not_text [of binary_client 2 10 "[0xFF, 0xFE]" "1 / 524288" ascii_only]
    truediv_exact [of "15 * 1024 * 1024"] truediv_exact [of 2]
  by (simp_all add: large_client_def binary_client_def awaitable_client_def)

text \<open>
  With a client whose \<open>get_blob_properties\<close> answers a plain object, as the clients of
  \<open>azure.storage.blob\<close> do, the first \<open>await\<close> raises \<open>TypeError\<close> and \<open>scan_blob\<close> returns
  the outcome of its handler, whatever the blob is.
\<close>

lemma scan_blob_plain_properties:
  "get_blob_properties c = Inr (Plain ty sz) \<Longrightarrow>
     scan_blob U c max_size_mb = failed (await_error ty) [Get_blob_properties]"
  by (simp add: scan_blob_def await_def)

text \<open>
  C7. The claim is that a blob whose reported size exceeds \<open>max_size_mb\<close> megabytes is
  skipped with \<open>scanned = False\<close>, the reason for a file that is too large and its size in
  \<open>size_mb\<close>, as the comment \<open>Skip if the blob is too large\<close> and the return below it say.
  With the client that \<open>scan_storage_account\<close> passes, whose \<open>get_blob_properties\<close> answers a
  plain \<open>BlobProperties\<close>, the comparison of the size is never reached: the outcome is that
  of the handler, with a reason that begins with \<open>Error:\<close> and no \<open>size_mb\<close>.
\<close>

theorem large_blob_not_skipped:
  assumes "get_blob_properties c = Inr (Plain ty sz)" and "sz > max_size_mb * 1024 * 1024"
  shows "scan_blob U c max_size_mb =
           (\<lparr>scanned = False,
             reason = Some (''Error: object '' @ ty @ '' can't be used in 'await' expression''),
             size_mb = None, findings = None, has_pii = None\<rparr>,
            [Get_blob_properties])
         \<and> reason (fst (scan_blob U c max_size_mb)) \<noteq> Some ''File too large''"
  using scan_blob_plain_properties [OF assms(1), of U max_size_mb]
  by (simp add: failed_def error_outcome_def await_error_def)

text \<open>
  The statement at a blob of 15 MB with the limit 10 and a client of \<open>azure.storage.blob\<close>.
\<close>

theorem large_blob_not_skipped_witness:
  "get_blob_properties plain_large_client = Inr (Plain ''BlobProperties'' (15 * 1024 * 1024))
   \<and> (15 * 1024 * 1024 :: int) > 10 * 1024 * 1024
   \<and> scan_blob ascii_only plain_large_client 10 =
       (\<lparr>scanned = False,
         reason = Some ''Error: object BlobProperties can't be used in 'await' expression'',
         size_mb = None, findings = None, has_pii = None\<rparr>,
        [Get_blob_properties])"
proof -
  have h: "get_blob_properties plain_large_client
             = Inr (Plain ''BlobProperties'' (15 * 1024 * 1024))"
    by (simp add: plain_large_client_def plain_client_def)
  from large_blob_not_skipped [OF h, of 10 ascii_only] h show ?thesis by simp
qed

text \<open>
  C8. The claim is that content which fails strict UTF-8 decoding gives \<open>scanned = False\<close>
  with the reason for a file that is not text, as the comments \<open>Download the blob content\<close>,
  \<open>Try to decode as text\<close> and \<open>Not a text file\<close> say. With the client that
  \<open>scan_storage_account\<close> passes the first \<open>await\<close> raises before anything is downloaded:
  the only call made is \<open>get_blob_properties\<close>, the content is never decoded, and the outcome
  is that of the handler, with a reason that begins with \<open>Error:\<close>.
\<close>

theorem undecodable_blob_not_read:
  assumes "get_blob_properties c = Inr (Plain ty sz)" and "\<not> sz > max_size_mb * 1024 * 1024"
    and "download_blob c = Inr (Plain ty1 (Inr (Plain ty2 content)))"
    and "utf8_decode content = None"
  shows "scan_blob U c max_size_mb =
           (\<lparr>scanned = False,
             reason = Some (''Error: object '' @ ty @ '' can't be used in 'await' expression''),
             size_mb = None, findings = None, has_pii = None\<rparr>,
            [Get_blob_properties])
         \<and> reason (fst (scan_blob U c max_size_mb)) \<noteq> Some ''Not a text file''"
  using scan_blob_plain_properties [OF assms(1), of U max_size_mb]
  by (simp add: failed_def error_outcome_def await_error_def)

text \<open>
  The statement at a blob of the two bytes FF FE and a client of \<open>azure.storage.blob\<close>.
\<close>

theorem undecodable_blob_not_read_witness:
  "get_blob_properties plain_binary_client = Inr (Plain ''BlobProperties'' 2)
   \<and> \<not> (2 :: int) > 10 * 1024 * 1024
   \<and> download_blob plain_binary_client
       = Inr (Plain ''StorageStreamDownloader'' (Inr (Plain ''bytes'' [0xFF, 0xFE])))
   \<and> utf8_decode [0xFF, 0xFE] = None
   \<and> scan_blob ascii_only plain_binary_client 10 =
       (\<lparr>scanned = False,
         reason = Some ''Error: object BlobProperties can't be used in 'await' expression'',
         size_mb = None, findings = None, has_pii = None\<rparr>,
        [Get_blob_properties])"
proof -
  have h1: "get_blob_properties plain_binary_client = Inr (Plain ''BlobProperties'' 2)"
    by (simp add: plain_binary_client_def plain_client_def)
  have h2: "\<not> (2 :: int) > 10 * 1024 * 1024" by simp
  have h3: "download_blob plain_binary_client
       = Inr (Plain ''StorageStreamDownloader'' (Inr (Plain ''bytes'' [0xFF, 0xFE])))"
    by (simp add: plain_binary_client_def plain_client_def)
  have h4: "utf8_decode [0xFF, 0xFE] = None" by simp
  from undecodable_blob_not_read [OF h1 h2 h3 h4, of ascii_only] h1 h3 h4 show ?thesis by simp
qed

text \<open>
  C9. For every outcome of \<open>scan_blob\<close>, with \<open>has_pii\<close> and \<open>findings\<close> read as
  \<open>scan_storage_account\<close> reads them (an absent entry is \<open>False\<close>, respectively the empty
  map): \<open>has_pii\<close> holds exactly when the findings map is not empty, and an outcome with
  \<open>scanned = False\<close> has an empty findings map and a reason.
\<close>

theorem scan_blob_outcome_consistent:
  "(get_has_pii (fst (scan_blob U c max_size_mb))
      \<longleftrightarrow> get_findings (fst (scan_blob U c max_size_mb)) \<noteq> [])
   \<and> (\<not> scanned (fst (scan_blob U c max_size_mb))
        \<longrightarrow> get_findings (fst (scan_blob U c max_size_mb)) = []
            \<and> reason (fst (scan_blob U c max_size_mb)) \<noteq> None)"
  by (simp add: scan_blob_def failed_def await_def get_has_pii_def get_findings_def
      error_outcome_def split: sum.splits option.splits answer.splits)

text \<open>
  The statement at a blob whose properties cannot be fetched.
\<close>

theorem scan_blob_outcome_consistent_witness:
  "\<not> scanned (fst (scan_blob ascii_only failing_client 10))
   \<and> \<not> get_has_pii (fst (scan_blob ascii_only failing_client 10))
   \<and> get_findings (fst (scan_blob ascii_only failing_client 10)) = []
   \<and> reason (fst (scan_blob ascii_only failing_client 10)) \<noteq> None"
  using scan_blob_outcome_consistent [of ascii_only failing_client 10]
  by (simp add: scan_blob_def failed_def failing_client_def error_outcome_def)

section \<open>The walk over containers: cap and counters\<close>

text \<open>
  Along the loop over the blobs of a container the two counters of blobs with PII move
  together, the blobs examined are those listed before the cap is reached, and the counters
  of the container stay below the loop counter.
\<close>

lemma scan_blobs_pii:
  "scan_blobs U m d bs exc w = (e, w') \<Longrightarrow>
     pii_found_count (results w') - blobs_with_pii (container_results w')
       = pii_found_count (results w) - blobs_with_pii (container_results w)"
proof (induction bs arbitrary: w)
  case Nil
  then show ?case by simp
next
  case (Cons b bs)
  show ?case
  proof (cases "scan_count w \<ge> d")
    case True
    with Cons.prems show ?thesis by simp
  next
    case False
    with Cons.prems Cons.IH show ?thesis
      by (fastforce simp: Let_def split: if_splits)
  qed
qed

lemma scan_blobs_examined:
  "scan_blobs U m d bs exc w = (e, w') \<Longrightarrow>
     examined w' = examined w @ take (nat (d - scan_count w)) bs"
proof (induction bs arbitrary: w)
  case Nil
  then show ?case by simp
next
  case (Cons b bs)
  show ?case
  proof (cases "scan_count w \<ge> d")
    case True
    with Cons.prems show ?thesis by simp
  next
    case False
    then have "nat (d - scan_count w) = Suc (nat (d - (scan_count w + 1)))" by simp
    with False Cons.prems Cons.IH show ?thesis
      by (auto simp: Let_def split: if_splits)
  qed
qed

lemma scan_blobs_counts:
  "scan_blobs U m d bs exc w = (e, w') \<Longrightarrow>
     blobs_with_pii (container_results w) \<le> blobs_scanned (container_results w) \<Longrightarrow>
     blobs_scanned (container_results w) \<le> scan_count w \<Longrightarrow>
     scan_count w \<le> d \<Longrightarrow>
     blobs_with_pii (container_results w') \<le> blobs_scanned (container_results w')
     \<and> blobs_scanned (container_results w') \<le> d"
proof (induction bs arbitrary: w)
  case Nil
  then show ?case by simp
next
  case (Cons b bs)
  show ?case
  proof (cases "scan_count w \<ge> d")
    case True
    with Cons.prems show ?thesis by simp
  next
    case False
    with Cons.prems Cons.IH show ?thesis
      by (fastforce simp: Let_def split: if_splits)
  qed
qed

lemma scan_blobs_pii_findings:
  "scan_blobs U m d bs exc w = (e, w') \<Longrightarrow> pii_findings (results w') = pii_findings (results w)"
proof (induction bs arbitrary: w)
  case Nil
  then show ?case by simp
next
  case (Cons b bs)
  show ?case
  proof (cases "scan_count w \<ge> d")
    case True
    with Cons.prems show ?thesis by simp
  next
    case False
    with Cons.prems Cons.IH show ?thesis
      by (fastforce simp: Let_def split: if_splits)
  qed
qed

lemma scan_containers_Cons:
  "scan_containers U m d (c # cs) exc res vs =
     (case scan_blobs U m d (items (list_blobs c)) (raises (list_blobs c)) (walk0 c res) of
        (Some e, w) \<Rightarrow>
          (Some e, results w,
           vs @ [\<lparr>visited = c, looked_at = examined w, produced = container_results w\<rparr>])
      | (None, w) \<Rightarrow>
          scan_containers U m d cs exc
            (if blobs_with_pii (container_results w) > 0
             then (results w)\<lparr>containers_scanned := containers_scanned (results w) + 1,
                    pii_findings := pii_findings (results w) @ [container_results w]\<rparr>
             else (results w)\<lparr>containers_scanned := containers_scanned (results w) + 1\<rparr>)
            (vs @ [\<lparr>visited = c, looked_at = examined w, produced = container_results w\<rparr>]))"
  by (simp add: walk0_def Let_def split: prod.splits option.splits)

lemma scan_containers_pii:
  "scan_containers U m d cs exc res vs = (e, res', vs') \<Longrightarrow>
     pii_found_count res' - sum_list (map (\<lambda>v. blobs_with_pii (produced v)) vs')
       = pii_found_count res - sum_list (map (\<lambda>v. blobs_with_pii (produced v)) vs)"
proof (induction cs arbitrary: res vs)
  case Nil
  then show ?case by simp
next
  case (Cons c cs)
  obtain e1 w where sb: "scan_blobs U m d (items (list_blobs c)) (raises (list_blobs c)) (walk0 c res) = (e1, w)"
    by (cases "scan_blobs U m d (items (list_blobs c)) (raises (list_blobs c)) (walk0 c res)")
  have inv: "pii_found_count (results w) - blobs_with_pii (container_results w) = pii_found_count res"
    using scan_blobs_pii [OF sb] by (simp add: walk0_def)
  show ?case
  proof (cases e1)
    case (Some x)
    with Cons.prems sb inv show ?thesis
      by (auto simp add: scan_containers_Cons simp del: scan_containers.simps)
  next
    case None
    with Cons.prems sb have
      "scan_containers U m d cs exc
            (if blobs_with_pii (container_results w) > 0
             then (results w)\<lparr>containers_scanned := containers_scanned (results w) + 1,
                    pii_findings := pii_findings (results w) @ [container_results w]\<rparr>
             else (results w)\<lparr>containers_scanned := containers_scanned (results w) + 1\<rparr>)
            (vs @ [\<lparr>visited = c, looked_at = examined w, produced = container_results w\<rparr>]) = (e, res', vs')"
      by (simp add: scan_containers_Cons del: scan_containers.simps)
    from Cons.IH [OF this] inv show ?thesis
      by (simp split: if_splits)
  qed
qed

lemma scan_containers_visits:
  "scan_containers U m d cs exc res vs = (e, res', vs') \<Longrightarrow>
     \<exists>new. vs' = vs @ new \<and> map visited new = take (length new) cs
       \<and> (\<forall>v\<in>set new. looked_at v = take (nat d) (items (list_blobs (visited v))))
       \<and> (0 \<le> d \<longrightarrow> (\<forall>v\<in>set new. blobs_with_pii (produced v) \<le> blobs_scanned (produced v)
             \<and> blobs_scanned (produced v) \<le> d))"
proof (induction cs arbitrary: res vs)
  case Nil
  then show ?case by simp
next
  case (Cons c cs)
  obtain e1 w where sb: "scan_blobs U m d (items (list_blobs c)) (raises (list_blobs c)) (walk0 c res) = (e1, w)"
    by (cases "scan_blobs U m d (items (list_blobs c)) (raises (list_blobs c)) (walk0 c res)")
  let ?v = "\<lparr>visited = c, looked_at = examined w, produced = container_results w\<rparr>"
  have ex: "looked_at ?v = take (nat d) (items (list_blobs (visited ?v)))"
    using scan_blobs_examined [OF sb] by (simp add: walk0_def)
  have cn: "0 \<le> d \<longrightarrow> blobs_with_pii (produced ?v) \<le> blobs_scanned (produced ?v)
             \<and> blobs_scanned (produced ?v) \<le> d"
    using scan_blobs_counts [OF sb] by (simp add: walk0_def)
  show ?case
  proof (cases e1)
    case (Some x)
    with Cons.prems sb have "vs' = vs @ [?v]"
      by (auto simp add: scan_containers_Cons simp del: scan_containers.simps)
    moreover have "map visited [?v] = take (length [?v]) (c # cs)" by simp
    ultimately show ?thesis using ex cn by (intro exI [of _ "[?v]"]) simp
  next
    case None
    with Cons.prems sb have
      "scan_containers U m d cs exc
            (if blobs_with_pii (container_results w) > 0
             then (results w)\<lparr>containers_scanned := containers_scanned (results w) + 1,
                    pii_findings := pii_findings (results w) @ [container_results w]\<rparr>
             else (results w)\<lparr>containers_scanned := containers_scanned (results w) + 1\<rparr>)
            (vs @ [?v]) = (e, res', vs')"
      by (simp add: scan_containers_Cons del: scan_containers.simps)
    from Cons.IH [OF this] obtain new where
      n: "vs' = (vs @ [?v]) @ new" "map visited new = take (length new) cs"
         "\<forall>v\<in>set new. looked_at v = take (nat d) (items (list_blobs (visited v)))"
         "0 \<le> d \<longrightarrow> (\<forall>v\<in>set new. blobs_with_pii (produced v) \<le> blobs_scanned (produced v)
             \<and> blobs_scanned (produced v) \<le> d)"
      by blast
    show ?thesis
      using n ex cn by (intro exI [of _ "?v # new"]) simp
  qed
qed

lemma scan_containers_appended:
  "scan_containers U m d cs exc res vs = (e, res', vs') \<Longrightarrow>
     \<forall>c\<in>set (pii_findings res). c \<in> produced ` set vs \<and> 0 < blobs_with_pii c \<Longrightarrow>
     \<forall>c\<in>set (pii_findings res'). c \<in> produced ` set vs' \<and> 0 < blobs_with_pii c"
proof (induction cs arbitrary: res vs)
  case Nil
  then show ?case by simp
next
  case (Cons c cs)
  obtain e1 w where sb: "scan_blobs U m d (items (list_blobs c)) (raises (list_blobs c)) (walk0 c res) = (e1, w)"
    by (cases "scan_blobs U m d (items (list_blobs c)) (raises (list_blobs c)) (walk0 c res)")
  have same: "pii_findings (results w) = pii_findings res"
    using scan_blobs_pii_findings [OF sb] by (simp add: walk0_def)
  show ?case
  proof (cases e1)
    case (Some x)
    with Cons.prems sb same show ?thesis
      by (auto simp add: scan_containers_Cons simp del: scan_containers.simps)
  next
    case None
    let ?v = "\<lparr>visited = c, looked_at = examined w, produced = container_results w\<rparr>"
    let ?res = "if blobs_with_pii (container_results w) > 0
             then (results w)\<lparr>containers_scanned := containers_scanned (results w) + 1,
                    pii_findings := pii_findings (results w) @ [container_results w]\<rparr>
             else (results w)\<lparr>containers_scanned := containers_scanned (results w) + 1\<rparr>"
    from None Cons.prems(1) sb have run: "scan_containers U m d cs exc ?res (vs @ [?v]) = (e, res', vs')"
      by (simp add: scan_containers_Cons del: scan_containers.simps)
    have "\<forall>c\<in>set (pii_findings ?res). c \<in> produced ` set (vs @ [?v]) \<and> 0 < blobs_with_pii c"
      using Cons.prems(2) same by auto
    from Cons.IH [OF run this] show ?thesis .
  qed
qed

lemma scan_blobs_idle_counts:
  assumes "d \<le> scan_count w" and "scan_blobs U m d bs exc w = (e, w')"
  shows "container_results w' = container_results w"
  using assms by (cases bs) auto

lemma scan_containers_idle:
  "d \<le> 0 \<Longrightarrow> scan_containers U m d cs exc res vs = (e, res', vs') \<Longrightarrow>
     \<forall>v\<in>set vs. blobs_with_pii (produced v) = 0 \<and> blobs_scanned (produced v) = 0 \<Longrightarrow>
     \<forall>v\<in>set vs'. blobs_with_pii (produced v) = 0 \<and> blobs_scanned (produced v) = 0"
proof (induction cs arbitrary: res vs)
  case Nil
  then show ?case by simp
next
  case (Cons c cs)
  obtain e1 w where sb: "scan_blobs U m d (items (list_blobs c)) (raises (list_blobs c)) (walk0 c res) = (e1, w)"
    by (cases "scan_blobs U m d (items (list_blobs c)) (raises (list_blobs c)) (walk0 c res)")
  let ?v = "\<lparr>visited = c, looked_at = examined w, produced = container_results w\<rparr>"
  from Cons.prems(1) have "d \<le> scan_count (walk0 c res)" by (simp add: walk0_def)
  from scan_blobs_idle_counts [OF this sb]
  have z: "blobs_with_pii (produced ?v) = 0 \<and> blobs_scanned (produced ?v) = 0"
    by (simp add: walk0_def)
  show ?case
  proof (cases e1)
    case (Some x)
    with Cons.prems(2) sb have "vs' = vs @ [?v]"
      by (auto simp add: scan_containers_Cons simp del: scan_containers.simps)
    with Cons.prems(3) z show ?thesis by auto
  next
    case None
    with Cons.prems(2) sb have
      "scan_containers U m d cs exc
            (if blobs_with_pii (container_results w) > 0
             then (results w)\<lparr>containers_scanned := containers_scanned (results w) + 1,
                    pii_findings := pii_findings (results w) @ [container_results w]\<rparr>
             else (results w)\<lparr>containers_scanned := containers_scanned (results w) + 1\<rparr>)
            (vs @ [?v]) = (e, res', vs')"
      by (simp add: scan_containers_Cons del: scan_containers.simps)
    moreover have "\<forall>v\<in>set (vs @ [?v]).
        blobs_with_pii (produced v) = 0 \<and> blobs_scanned (produced v) = 0"
      using Cons.prems(3) z by auto
    ultimately show ?thesis using Cons.IH [OF Cons.prems(1)] by blast
  qed
qed

lemma scan_storage_account_eq:
  "scan_storage_account U now lc an ak rg m d = (res, vs) \<Longrightarrow>
     \<exists>e. scan_containers U m d (items lc) (raises lc) (account0 an rg now) [] = (e, res, vs)"
  by (auto simp: scan_storage_account_def account0_def split: prod.splits)

text \<open>
  C4. The claim is made for every value of \<open>scan_depth\<close>, a Python \<open>int\<close>. With
  \<open>scan_depth = -1\<close> the loop over a container of one blob breaks at that blob and examines
  none, and zero objects are not at most \<open>-1\<close>.
\<close>

theorem scan_depth_cap_counterexample:
  "snd negative_depth_scan = [idle_visit]
   \<and> \<not> int (length (looked_at idle_visit)) \<le> - 1"
  by (simp add: negative_depth_scan_def scan_storage_account_def quiet_container_def
      idle_visit_def)

text \<open>
  C4, the bound for \<open>scan_depth \<ge> 0\<close>. The containers visited are an initial part of the
  account's listing, and in every container visited the blobs handed to \<open>scan_blob\<close> are
  the first \<open>scan_depth\<close> blobs of its listing (none when \<open>scan_depth \<le> 0\<close>), whatever the
  outcome of each of them. For \<open>scan_depth \<ge> 0\<close> these are at most \<open>scan_depth\<close> blobs, and a
  listing of 150 blobs with \<open>scan_depth = 100\<close> has exactly 100 examined.
\<close>

theorem scan_depth_cap:
  assumes "scan_storage_account U now lc an ak rg m d = (res, vs)"
  shows "map visited vs = take (length vs) (items lc)
     \<and> (\<forall>v\<in>set vs.
           looked_at v = take (nat d) (items (list_blobs (visited v)))
         \<and> (0 \<le> d \<longrightarrow> int (length (looked_at v)) \<le> d)
         \<and> (length (items (list_blobs (visited v))) = 150 \<and> d = 100 \<longrightarrow> length (looked_at v) = 100))"
proof -
  from scan_storage_account_eq [OF assms] obtain e where
    "scan_containers U m d (items lc) (raises lc) (account0 an rg now) [] = (e, res, vs)" ..
  from scan_containers_visits [OF this] have
    v: "map visited vs = take (length vs) (items lc)"
       "\<forall>v\<in>set vs. looked_at v = take (nat d) (items (list_blobs (visited v)))"
    by auto
  show ?thesis
  proof (intro conjI ballI impI)
    show "map visited vs = take (length vs) (items lc)" by (rule v(1))
  next
    fix x assume "x \<in> set vs"
    with v(2) show "looked_at x = take (nat d) (items (list_blobs (visited x)))" by blast
  next
    fix x assume "x \<in> set vs" "0 \<le> d"
    with v(2) have "length (looked_at x) \<le> nat d" by simp
    with \<open>0 \<le> d\<close> show "int (length (looked_at x)) \<le> d" by linarith
  next
    fix x assume "x \<in> set vs" "length (items (list_blobs (visited x))) = 150 \<and> d = 100"
    with v(2) show "length (looked_at x) = 100" by simp
  qed
qed

text \<open>
  The statement at a container of 150 blobs (failing, too large and binary ones in turn)
  with \<open>scan_depth = 100\<close>.
\<close>

theorem scan_depth_cap_witness:
  "map (\<lambda>v. length (items (list_blobs (visited v)))) (snd crowded_scan) = [150]
   \<and> map (\<lambda>v. length (looked_at v)) (snd crowded_scan) = [100]"
proof -
  have n: "length (snd crowded_scan) = 1" by code_simp
  then obtain v where v: "snd crowded_scan = [v]"
    by (cases "snd crowded_scan") auto
  have c: "length (items (list_blobs crowded_container)) = 150"
    by code_simp
  have h: "scan_storage_account ascii_only ''t'' \<lparr>items = [crowded_container], raises = None\<rparr>
       ''acct'' ''key'' ''rg'' 10 100 = (fst crowded_scan, snd crowded_scan)"
    by (simp add: crowded_scan_def)
  from scan_depth_cap [OF h] v c show ?thesis by simp
qed

text \<open>
  C5. \<open>pii_found_count\<close> of the account result is the sum of \<open>blobs_with_pii\<close> over the
  container results of all visits, also of a visit that a failing listing cut short and of
  the containers whose result was not appended; the results in \<open>pii_findings\<close> are among
  those of the visits and have \<open>blobs_with_pii > 0\<close>.
\<close>

theorem pii_found_count_is_sum:
  assumes "scan_storage_account U now lc an ak rg m d = (res, vs)"
  shows "pii_found_count res = sum_list (map (\<lambda>v. blobs_with_pii (produced v)) vs)
     \<and> (\<forall>c\<in>set (pii_findings res). c \<in> produced ` set vs \<and> 0 < blobs_with_pii c)"
proof -
  from scan_storage_account_eq [OF assms] obtain e where
    sc: "scan_containers U m d (items lc) (raises lc) (account0 an rg now) [] = (e, res, vs)" ..
  from scan_containers_pii [OF sc]
  have "pii_found_count res = sum_list (map (\<lambda>v. blobs_with_pii (produced v)) vs)"
    by (simp add: account0_def)
  moreover from scan_containers_appended [OF sc]
  have "\<forall>c\<in>set (pii_findings res). c \<in> produced ` set vs \<and> 0 < blobs_with_pii c"
    by (simp add: account0_def)
  ultimately show ?thesis by simp
qed

text \<open>
  The statement at an account of two containers, the first without PII, the second with one
  blob holding an SSN.
\<close>

theorem pii_found_count_is_sum_witness:
  "map (\<lambda>v. blobs_with_pii (produced v)) (snd mixed_scan) = [0, 1]
   \<and> pii_found_count (fst mixed_scan) = 1
   \<and> map of_container (pii_findings (fst mixed_scan)) = [''hr'']"
proof -
  have e: "map (\<lambda>v. blobs_with_pii (produced v)) (snd mixed_scan) = [0, 1]" by code_simp
  have f: "map of_container (pii_findings (fst mixed_scan)) = [''hr'']" by code_simp
  have h: "scan_storage_account ascii_only ''t''
       \<lparr>items = [quiet_container, ssn_container], raises = None\<rparr> ''acct'' ''key'' ''rg'' 10 100
         = (fst mixed_scan, snd mixed_scan)"
    by (simp add: mixed_scan_def)
  from pii_found_count_is_sum [OF h] e f show ?thesis by simp
qed

text \<open>
  C6. The claim is made for every cap, a Python \<open>int\<close>. With \<open>scan_depth = -1\<close> the
  container result of a container of one blob has \<open>blobs_scanned = 0\<close>, which is not at
  most \<open>-1\<close>.
\<close>

theorem container_counts_bounded_counterexample:
  "snd negative_depth_scan = [idle_visit]
   \<and> \<not> blobs_scanned (produced idle_visit) \<le> - 1"
  by (simp add: negative_depth_scan_def scan_storage_account_def quiet_container_def
      idle_visit_def)

text \<open>
  C6, for \<open>scan_depth \<ge> 0\<close>: every container result of a visit has
  \<open>blobs_with_pii \<le> blobs_scanned \<le> scan_depth\<close>. For a negative \<open>scan_depth\<close> both
  counters of every container result are 0.
\<close>

theorem container_counts_bounded:
  assumes "scan_storage_account U now lc an ak rg m d = (res, vs)"
  shows "\<forall>v\<in>set vs.
           (0 \<le> d \<longrightarrow> blobs_with_pii (produced v) \<le> blobs_scanned (produced v)
                       \<and> blobs_scanned (produced v) \<le> d)
         \<and> (d < 0 \<longrightarrow> blobs_with_pii (produced v) = 0 \<and> blobs_scanned (produced v) = 0)"
proof -
  from scan_storage_account_eq [OF assms] obtain e where
    sc: "scan_containers U m d (items lc) (raises lc) (account0 an rg now) [] = (e, res, vs)" ..
  show ?thesis
  proof (cases "0 \<le> d")
    case True
    with scan_containers_visits [OF sc] show ?thesis by auto
  next
    case False
    then have "d \<le> 0" by simp
    from scan_containers_idle [OF this sc] False show ?thesis by simp
  qed
qed

text \<open>
  The statement at the account of two containers with \<open>scan_depth = 100\<close>, and at the account
  of one container with \<open>scan_depth = -1\<close>.
\<close>

theorem container_counts_bounded_witness:
  "map (\<lambda>v. (blobs_with_pii (produced v), blobs_scanned (produced v))) (snd mixed_scan)
     = [(0, 0), (1, 1)]
   \<and> (1 :: int) \<le> 100
   \<and> map (\<lambda>v. (blobs_with_pii (produced v), blobs_scanned (produced v)))
         (snd negative_depth_scan) = [(0, 0)]"
proof -
  have e: "map (\<lambda>v. (blobs_with_pii (produced v), blobs_scanned (produced v))) (snd mixed_scan)
     = [(0, 0), (1, 1)]" by code_simp
  have h: "scan_storage_account ascii_only ''t''
       \<lparr>items = [quiet_container, ssn_container], raises = None\<rparr> ''acct'' ''key'' ''rg'' 10 100
         = (fst mixed_scan, snd mixed_scan)"
    by (simp add: mixed_scan_def)
  have n: "length (snd negative_depth_scan) = 1" by code_simp
  then obtain v where v: "snd negative_depth_scan = [v]"
    by (cases "snd negative_depth_scan") auto
  have g: "scan_storage_account ascii_only ''t'' \<lparr>items = [quiet_container], raises = None\<rparr>
       ''acct'' ''key'' ''rg'' 10 (- 1) = (fst negative_depth_scan, snd negative_depth_scan)"
    by (simp add: negative_depth_scan_def)
  from container_counts_bounded [OF h] container_counts_bounded [OF g] e v
  show ?thesis by simp
qed

section \<open>The account scan with clients that answer plain objects\<close>

text \<open>
  When every blob client of an account answers \<open>get_blob_properties\<close> with a plain object,
  as the clients of \<open>azure.storage.blob\<close> do, no blob counts as scanned: the account
  result reports no blob scanned and no PII, whatever the blobs hold.
\<close>

lemma scan_blobs_plain:
  assumes "\<forall>b\<in>set bs. \<exists>ty sz. get_blob_properties (client b) = Inr (Plain ty sz)"
    and "scan_blobs U m d bs exc w = (e, w')"
  shows "container_results w' = container_results w \<and> results w' = results w"
  using assms
proof (induction bs arbitrary: w)
  case Nil
  then show ?case by simp
next
  case (Cons b bs)
  from Cons.prems(1) obtain ty sz where "get_blob_properties (client b) = Inr (Plain ty sz)"
    by auto
  then have ns: "\<not> scanned (fst (scan_blob U (client b) m))"
    by (simp add: scan_blob_plain_properties failed_def error_outcome_def)
  show ?case
  proof (cases "scan_count w \<ge> d")
    case True
    with Cons.prems(2) show ?thesis by simp
  next
    case False
    with Cons.prems ns have
      "scan_blobs U m d bs exc (w\<lparr>scan_count := scan_count w + 1, examined := examined w @ [b]\<rparr>)
         = (e, w')"
      by (simp add: Let_def)
    from Cons.IH [OF _ this] Cons.prems(1) show ?thesis by simp
  qed
qed

lemma scan_containers_plain:
  assumes "\<forall>c\<in>set cs. \<forall>b\<in>set (items (list_blobs c)).
             \<exists>ty sz. get_blob_properties (client b) = Inr (Plain ty sz)"
    and "scan_containers U m d cs exc res vs = (e, res', vs')"
  shows "account_blobs_scanned res' = account_blobs_scanned res
     \<and> pii_found_count res' = pii_found_count res \<and> pii_findings res' = pii_findings res"
  using assms
proof (induction cs arbitrary: res vs)
  case Nil
  then show ?case by simp
next
  case (Cons c cs)
  obtain e1 w where sb: "scan_blobs U m d (items (list_blobs c)) (raises (list_blobs c)) (walk0 c res) = (e1, w)"
    by (cases "scan_blobs U m d (items (list_blobs c)) (raises (list_blobs c)) (walk0 c res)")
  from Cons.prems(1) have
    "\<forall>b\<in>set (items (list_blobs c)). \<exists>ty sz. get_blob_properties (client b) = Inr (Plain ty sz)"
    by simp
  from scan_blobs_plain [OF this sb]
  have same: "results w = res" "blobs_with_pii (container_results w) = 0"
    by (simp_all add: walk0_def)
  show ?case
  proof (cases e1)
    case (Some x)
    with Cons.prems(2) sb same show ?thesis
      by (auto simp add: scan_containers_Cons simp del: scan_containers.simps)
  next
    case None
    with Cons.prems(2) sb same have
      "scan_containers U m d cs exc (res\<lparr>containers_scanned := containers_scanned res + 1\<rparr>)
         (vs @ [\<lparr>visited = c, looked_at = examined w, produced = container_results w\<rparr>])
         = (e, res', vs')"
      by (simp add: scan_containers_Cons del: scan_containers.simps)
    from Cons.IH [OF _ this] Cons.prems(1) show ?thesis by simp
  qed
qed

lemma plain_clients_nothing_scanned:
  assumes "\<forall>c\<in>set (items lc). \<forall>b\<in>set (items (list_blobs c)).
             \<exists>ty sz. get_blob_properties (client b) = Inr (Plain ty sz)"
    and "scan_storage_account U now lc an ak rg m d = (res, vs)"
  shows "account_blobs_scanned res = 0 \<and> pii_found_count res = 0 \<and> pii_findings res = []"
proof -
  from scan_storage_account_eq [OF assms(2)] obtain e where
    "scan_containers U m d (items lc) (raises lc) (account0 an rg now) [] = (e, res, vs)" ..
  from scan_containers_plain [OF assms(1) this] show ?thesis by (simp add: account0_def)
qed

end
